theory Spec2Isabelle
  imports Main "HOL-Library.Word" "HOL-Library.Signed_Division"
begin

section \<open>Croquette: a string-keyed dictionary with separate chaining\<close>

text \<open>
  A shallow embedding of \<^verbatim>\<open>src/croquette.c\<close>. The two file-level globals of the C
  source (\<^verbatim>\<open>croquette\<close> and \<^verbatim>\<open>croquette_error\<close>) become fields of a record that every
  operation takes and returns. A C function that can run into undefined behaviour
  (a call through a null function pointer, an array access outside the allocation)
  returns \<open>Fault\<close> in the model instead of a state.
\<close>

subsection \<open>Constants of \<^verbatim>\<open>croquette.h\<close>\<close>

text \<open>
  \<^verbatim>\<open>croquette.c\<close> spells the enumerators with the prefix \<^verbatim>\<open>D_\<close>; the header declares
  them with the prefix \<^verbatim>\<open>C_\<close>. The names below are the source's, the values are the
  header's. \<^verbatim>\<open>Croquette_Free_Value\<close> is declared in \<^verbatim>\<open>croquette.c\<close> itself.
\<close>

definition CROQUETTE_DEFAULT_INITIAL_SIZE :: int where
  "CROQUETTE_DEFAULT_INITIAL_SIZE = 11"

definition MAX_KEY_SIZE :: nat where
  "MAX_KEY_SIZE = 255"

datatype croquette_action = D_Insert | D_Remove

definition D_Error :: int where "D_Error = - 1"
definition D_Success :: int where "D_Success = 0"

definition Croquette_NoFree_Value :: int where "Croquette_NoFree_Value = 0"
definition Croquette_Free_Value :: int where "Croquette_Free_Value = 1"

definition D_No_Free :: int where "D_No_Free = 0"
definition D_Do_Free :: int where "D_Do_Free = 1"

definition D_No_Error :: int where "D_No_Error = 0"
definition D_General_Error :: int where "D_General_Error = 1"
definition D_Uninitialized :: int where "D_Uninitialized = 2"
definition D_Unknown_Error :: int where "D_Unknown_Error = 3"
definition D_Invalid_Key :: int where "D_Invalid_Key = 4"
definition D_Invalid_Value :: int where "D_Invalid_Value = 5"
definition D_Entry_NULL :: int where "D_Entry_NULL = 6"
definition D_Invalid_Capacity :: int where "D_Invalid_Capacity = 7"
definition D_Invalid_Index :: int where "D_Invalid_Index = 8"
definition D_No_Value :: int where "D_No_Value = 9"
definition D_Insufficient_Memory :: int where "D_Insufficient_Memory = 10"
definition D_FreeValue_Missing :: int where "D_FreeValue_Missing = 11"
definition D_ValueCompare_Missing :: int where "D_ValueCompare_Missing = 12"
definition D_Exists :: int where "D_Exists = 13"
definition D_No_Such_Error :: int where "D_No_Such_Error = 14"
definition D_Num_Errors :: int where "D_Num_Errors = 15"

subsection \<open>Data\<close>

text \<open>
  A value is a \<^verbatim>\<open>void *\<close>: \<open>None\<close> is the null pointer. A chain of \<^verbatim>\<open>Carrier_s\<close> nodes is
  the list of its nodes from the bucket head on; the \<^verbatim>\<open>next\<close> and \<^verbatim>\<open>prev\<close> links are
  the list order. A pointer to a node is the pair of its bucket and its position in
  the chain.

  The two callbacks are function pointers and may be null. \<^verbatim>\<open>free_value\<close> acts on memory
  of the caller: the type \<open>'w\<close> stands for that memory, and the callback maps the
  released pointer and the memory before the call to the memory after it.
  \<^verbatim>\<open>value_compare\<close> is taken to be free of side effects.

  \<^verbatim>\<open>size\<close>, \<^verbatim>\<open>capacity\<close> and \<^verbatim>\<open>base_capacity\<close> are C \<^verbatim>\<open>int\<close>s, held here as
  integers. Of the arithmetic on these fields only \<^verbatim>\<open>capacity << 1\<close> can leave the
  range of a 32-bit \<^verbatim>\<open>int\<close> while the table holds less than \<open>2\<^sup>3\<^sup>1\<close> nodes; its result is
  reduced to 32 bits (\<open>c_int\<close>, in the section on rehashing). \<^verbatim>\<open>size++\<close> and
  \<^verbatim>\<open>size--\<close> are exact. The field \<^verbatim>\<open>size\<close> is called \<open>csize\<close> here.
\<close>

type_synonym 'v ptr = "'v option"

record 'v carrier_s =
  ckey :: string
  cvalue :: "'v ptr"

record ('v, 'w) croquette_s =
  do_free :: int
  csize :: int
  capacity :: int
  base_capacity :: int
  table :: "'v carrier_s list list"
  free_value :: "('v ptr \<Rightarrow> 'w \<Rightarrow> 'w) option"
  value_compare :: "('v ptr \<Rightarrow> 'v ptr \<Rightarrow> int) option"

text \<open>
  \<open>allocs\<close> lists the outcomes of the coming calls of \<^verbatim>\<open>calloc\<close>, in order
  (\<open>False\<close>: the call returns null); once the list is used up every allocation succeeds.
\<close>

record ('v, 'w) globals =
  croquette :: "('v, 'w) croquette_s option"
  croquette_error :: int
  world :: 'w
  allocs :: "bool list"

datatype fault =
  Null_Call | Null_Deref | Out_Of_Bounds | Div_By_Zero | Key_Overread | Chain_Alias | Dangling

datatype ('a, 's) outcome = Done 'a 's | Fault fault | Out_Of_Fuel

fun obind :: "('a, 's) outcome \<Rightarrow> ('a \<Rightarrow> 's \<Rightarrow> ('b, 's) outcome) \<Rightarrow> ('b, 's) outcome" where
  "obind (Done a s) f = f a s"
| "obind (Fault x) f = Fault x"
| "obind Out_Of_Fuel f = Out_Of_Fuel"

definition calloc :: "('v, 'w) globals \<Rightarrow> bool \<times> ('v, 'w) globals" where
  "calloc g = (case allocs g of [] \<Rightarrow> (True, g) | b # bs \<Rightarrow> (b, g\<lparr>allocs := bs\<rparr>))"

definition deref :: "('v, 'w) globals \<Rightarrow> (('v, 'w) croquette_s, ('v, 'w) globals) outcome" where
  "deref g = (case croquette g of None \<Rightarrow> Fault Null_Deref | Some t \<Rightarrow> Done t g)"

definition entry_at :: "('v, 'w) croquette_s \<Rightarrow> nat \<times> nat \<Rightarrow> 'v carrier_s option" where
  "entry_at t loc =
     (case loc of (b, p) \<Rightarrow>
        if b < length (table t) \<and> p < length (table t ! b) then Some (table t ! b ! p) else None)"

subsection \<open>The last-error slot\<close>

definition croquette_set_error :: "int \<Rightarrow> ('v, 'w) globals \<Rightarrow> ('v, 'w) globals" where
  "croquette_set_error err g =
     (let g1 = (if err < 0 \<or> err > D_Num_Errors
                then g\<lparr>croquette_error := D_No_Such_Error\<rparr> else g)
      in g1\<lparr>croquette_error := err\<rparr>)"

definition croquette_get_error :: "('v, 'w) globals \<Rightarrow> int" where
  "croquette_get_error g = croquette_error g"

subsection \<open>Hashing\<close>

text \<open>
  \<^verbatim>\<open>long\<close> is 64 bits wide (LP64) and \<^verbatim>\<open>code <<= 7\<close> keeps the low 64 bits, as the
  compiled shift does. Plain \<^verbatim>\<open>char\<close> is signed and is sign-extended when added; for
  7-bit ASCII the signed and the unsigned reading agree.
\<close>

definition char_long :: "char \<Rightarrow> 64 word" where
  "char_long c = scast (of_char c :: 8 word)"

function hash_loop :: "string \<Rightarrow> nat \<Rightarrow> nat \<Rightarrow> 64 word \<Rightarrow> 64 word" where
  "hash_loop key sz i code =
     (if i < sz then
        let code1 = code + char_long (key ! i);
            code2 = (if sz = 1 \<or> i < sz - 1 then push_bit 7 code1 else code1)
        in hash_loop key sz (i + 1) code2
      else code)"
  by pat_completeness auto
termination
  by (relation "measure (\<lambda>(key, sz, i, code). sz - i)") auto

declare hash_loop.simps [simp del]

definition hash_code :: "string \<Rightarrow> 64 word" where
  "hash_code key = hash_loop key (length key) 0 0"

text \<open>
  \<^verbatim>\<open>%\<close> truncates towards zero (\<open>smod\<close>). A null or empty key, or a missing table,
  gives \<^verbatim>\<open>D_General_Error\<close>, which is 1.
\<close>

definition get_index :: "string option \<Rightarrow> ('v, 'w) globals \<Rightarrow> (int, ('v, 'w) globals) outcome" where
  "get_index key g0 =
     (let g = croquette_set_error D_No_Error g0 in
      case croquette g of
        None \<Rightarrow> Done D_General_Error (croquette_set_error D_Uninitialized g)
      | Some t \<Rightarrow>
          (case key of
             None \<Rightarrow> Done D_General_Error (croquette_set_error D_Invalid_Key g)
           | Some k \<Rightarrow>
               if length k = 0 then Done D_General_Error (croquette_set_error D_Invalid_Key g)
               else if capacity t = 0 then Fault Div_By_Zero
               else Done (sint (hash_code k) smod capacity t) g))"

text \<open>
  \<^verbatim>\<open>strncmp(entry->key, key, MAX_KEY_SIZE)\<close> is 0 exactly when the two strings agree on
  their first \<^verbatim>\<open>MAX_KEY_SIZE\<close> characters.
\<close>

definition is_key :: "'v carrier_s \<Rightarrow> string \<Rightarrow> bool" where
  "is_key entry key = (take MAX_KEY_SIZE (ckey entry) = take MAX_KEY_SIZE key)"

fun chain_walk :: "'v carrier_s list \<Rightarrow> string \<Rightarrow> nat \<Rightarrow> nat option" where
  "chain_walk [] key p = None"
| "chain_walk (walker # rest) key p =
     (if is_key walker key then Some p else chain_walk rest key (Suc p))"

definition croquette_find ::
  "string option \<Rightarrow> ('v, 'w) globals \<Rightarrow> ((nat \<times> nat) option, ('v, 'w) globals) outcome" where
  "croquette_find key g0 =
     (let g = croquette_set_error D_No_Error g0 in
      case croquette g of
        None \<Rightarrow> Done None (croquette_set_error D_Uninitialized g)
      | Some _ \<Rightarrow>
          (case key of
             None \<Rightarrow> Done None (croquette_set_error D_Invalid_Key g)
           | Some k \<Rightarrow>
               if length k = 0 then Done None (croquette_set_error D_Invalid_Key g)
               else
                 obind (get_index key g) (\<lambda>index g1.
                   if index = D_Error then Done None g1
                   else
                     obind (deref g1) (\<lambda>t g2.
                       if index < 0 \<or> int (length (table t)) \<le> index then Fault Out_Of_Bounds
                       else
                         (case chain_walk (table t ! nat index) k 0 of
                            None \<Rightarrow> Done None g2
                          | Some p \<Rightarrow> Done (Some (nat index, p)) g2)))))"

subsection \<open>Read accessors\<close>

definition croquette_isEmpty :: "('v, 'w) globals \<Rightarrow> int \<times> ('v, 'w) globals" where
  "croquette_isEmpty g0 =
     (let g = croquette_set_error D_No_Error g0 in
      case croquette g of
        None \<Rightarrow> (D_Error, croquette_set_error D_Uninitialized g)
      | Some t \<Rightarrow> ((if csize t = 0 then 1 else 0), g))"

definition croquette_size :: "('v, 'w) globals \<Rightarrow> int \<times> ('v, 'w) globals" where
  "croquette_size g0 =
     (let g = croquette_set_error D_No_Error g0 in
      case croquette g of
        None \<Rightarrow> (D_Error, croquette_set_error D_Uninitialized g)
      | Some t \<Rightarrow> (csize t, g))"

definition croquette_capacity :: "('v, 'w) globals \<Rightarrow> int \<times> ('v, 'w) globals" where
  "croquette_capacity g0 =
     (let g = croquette_set_error D_No_Error g0 in
      case croquette g of
        None \<Rightarrow> (D_Error, croquette_set_error D_Uninitialized g)
      | Some t \<Rightarrow> (capacity t, g))"

definition croquette_containsKey ::
  "string option \<Rightarrow> ('v, 'w) globals \<Rightarrow> (int, ('v, 'w) globals) outcome" where
  "croquette_containsKey key g0 =
     (let g = croquette_set_error D_No_Error g0 in
      case croquette g of
        None \<Rightarrow> Done D_Error (croquette_set_error D_Uninitialized g)
      | Some _ \<Rightarrow>
          (case key of
             None \<Rightarrow> Done D_Error (croquette_set_error D_Invalid_Key g)
           | Some k \<Rightarrow>
               if length k = 0 then Done D_Error (croquette_set_error D_Invalid_Key g)
               else
                 obind (croquette_find key g) (\<lambda>entry g1.
                   Done (if entry \<noteq> None then 1 else 0) g1)))"

definition croquette_get ::
  "string option \<Rightarrow> ('v, 'w) globals \<Rightarrow> ('v ptr, ('v, 'w) globals) outcome" where
  "croquette_get key g0 =
     (let g = croquette_set_error D_No_Error g0 in
      case croquette g of
        None \<Rightarrow> Done None (croquette_set_error D_Uninitialized g)
      | Some _ \<Rightarrow>
          (case key of
             None \<Rightarrow> Done None (croquette_set_error D_Invalid_Key g)
           | Some k \<Rightarrow>
               if length k = 0 then Done None (croquette_set_error D_Invalid_Key g)
               else
                 obind (croquette_find key g) (\<lambda>entry g1.
                   case entry of
                     None \<Rightarrow> Done None g1
                   | Some loc \<Rightarrow>
                       obind (deref g1) (\<lambda>t g2.
                         case entry_at t loc of
                           None \<Rightarrow> Fault Dangling
                         | Some e \<Rightarrow> Done (cvalue e) g2))))"

subsection \<open>Chain nodes\<close>

text \<open>
  \<^verbatim>\<open>carrier_create\<close> allocates the node and a key buffer of
  \<^verbatim>\<open>min(MAX_KEY_SIZE, strlen(key) + 1)\<close> bytes and fills the buffer with \<^verbatim>\<open>strncpy\<close>. The
  second allocation is not checked. A key of \<^verbatim>\<open>MAX_KEY_SIZE\<close> or more characters fills
  the buffer with its first \<^verbatim>\<open>MAX_KEY_SIZE\<close> characters and leaves no terminator.
\<close>

definition carrier_create ::
  "string \<Rightarrow> 'v ptr \<Rightarrow> ('v, 'w) globals \<Rightarrow> ('v carrier_s option, ('v, 'w) globals) outcome" where
  "carrier_create key v g0 =
     (let g = croquette_set_error D_No_Error g0 in
      case calloc g of
        (False, g1) \<Rightarrow> Done None (croquette_set_error D_Insufficient_Memory g1)
      | (True, g1) \<Rightarrow>
          let key_size = min MAX_KEY_SIZE (length key + 1) in
          (case calloc g1 of
             (False, g2) \<Rightarrow> Fault Null_Deref
           | (True, g2) \<Rightarrow> Done (Some \<lparr>ckey = take key_size key, cvalue = v\<rparr>) g2))"

text \<open>
  The bounds check of \<^verbatim>\<open>insert_at_index\<close> is \<^verbatim>\<open>index < 0 || index > capacity\<close>. The
  bucket array has \<open>length (table t)\<close> slots; an access beyond them is a fault.
\<close>

definition insert_at_index ::
  "int \<Rightarrow> 'v carrier_s \<Rightarrow> ('v, 'w) globals \<Rightarrow> (int, ('v, 'w) globals) outcome" where
  "insert_at_index index entry g0 =
     (let g = croquette_set_error D_No_Error g0 in
      case croquette g of
        None \<Rightarrow> Done D_Error (croquette_set_error D_Uninitialized g)
      | Some t \<Rightarrow>
          if index < 0 \<or> index > capacity t
          then Done D_Error (croquette_set_error D_Invalid_Index g)
          else if int (length (table t)) \<le> index then Fault Out_Of_Bounds
          else Done D_Success
                 (g\<lparr>croquette := Some (t\<lparr>table := (table t)[nat index := table t ! nat index @ [entry]],
                                         csize := csize t + 1\<rparr>)\<rparr>))"

definition free_entry ::
  "'v carrier_s \<Rightarrow> ('v, 'w) globals \<Rightarrow> (unit, ('v, 'w) globals) outcome" where
  "free_entry entry g =
     (case croquette g of
        None \<Rightarrow> Done () g
      | Some t \<Rightarrow>
          if do_free t = D_Do_Free then
            (case free_value t of
               None \<Rightarrow> Fault Null_Call
             | Some f \<Rightarrow> Done () (g\<lparr>world := f (cvalue entry) (world g)\<rparr>))
          else Done () g)"

text \<open>
  \<^verbatim>\<open>remove_entry\<close> unlinks the node it is given. When the node heads its chain
  (\<^verbatim>\<open>prev == NULL\<close>) the code stores \<^verbatim>\<open>entry->next\<close> into the bucket that the node's key
  hashes to; should that be another bucket than the one the node is chained in, two
  buckets would share a tail, which the lists cannot express (\<open>Chain_Alias\<close>).
\<close>

definition remove_entry ::
  "(nat \<times> nat) option \<Rightarrow> ('v, 'w) globals \<Rightarrow> (int, ('v, 'w) globals) outcome" where
  "remove_entry entry g0 =
     (let g = croquette_set_error D_No_Error g0 in
      case entry of
        None \<Rightarrow> Done D_Error (croquette_set_error D_Entry_NULL g)
      | Some (b, p) \<Rightarrow>
          obind (deref g) (\<lambda>t _.
            case entry_at t (b, p) of
              None \<Rightarrow> Fault Dangling
            | Some e \<Rightarrow>
                obind (get_index (Some (ckey e)) g) (\<lambda>index g1.
                  obind
                    (if p = 0 \<and> (index < 0 \<or> int (length (table t)) \<le> index)
                     then Fault Out_Of_Bounds
                     else if p = 0 \<and> nat index \<noteq> b then Fault Chain_Alias
                     else Done ()
                            (g1\<lparr>croquette :=
                                 Some (t\<lparr>table := (table t)[b := take p (table t ! b) @
                                                                 drop (Suc p) (table t ! b)]\<rparr>)\<rparr>))
                    (\<lambda>_ g2.
                       obind (free_entry e g2) (\<lambda>_ g3.
                         obind (deref g3) (\<lambda>t3 g4.
                           Done D_Success
                             (g4\<lparr>croquette := Some (t3\<lparr>csize := csize t3 - 1\<rparr>)\<rparr>)))))))"

subsection \<open>Rehashing and insertion\<close>

text \<open>
  \<^verbatim>\<open>croquette_put\<close> calls \<^verbatim>\<open>rehash\<close>, which calls \<^verbatim>\<open>perform_rehash\<close>, which calls
  \<^verbatim>\<open>croquette_put\<close> again for every node of the old bucket array. The recursion is
  cut by a counter: \<open>perform_rehash n\<close> may nest \<open>n\<close> rehashes and returns
  \<open>Out_Of_Fuel\<close> when it would need more. The three functions are first written
  with the function they call as a parameter.
\<close>

text \<open>
  \<open>c_int x\<close> is the value a 32-bit \<^verbatim>\<open>int\<close> holds when the exact result of an operation
  is \<open>x\<close>: the low 32 bits, read in two's complement. \<^verbatim>\<open>capacity << 1\<close> from \<open>2\<^sup>3\<^sup>0\<close>
  buckets on is therefore not positive, and \<^verbatim>\<open>perform_rehash\<close> refuses it.
\<close>

definition c_int :: "int \<Rightarrow> int" where
  "c_int x = (x + 2 ^ 31) mod 2 ^ 32 - 2 ^ 31"

definition rehash_with ::
  "(int \<Rightarrow> ('v, 'w) globals \<Rightarrow> (int, ('v, 'w) globals) outcome) \<Rightarrow>
   croquette_action \<Rightarrow> ('v, 'w) globals \<Rightarrow> (int, ('v, 'w) globals) outcome" where
  "rehash_with perform operation g0 =
     (let g = croquette_set_error D_No_Error g0 in
      obind (deref g) (\<lambda>t _.
        obind
          (case operation of
             D_Insert \<Rightarrow>
               if csize t > drop_bit 1 (capacity t) + drop_bit 2 (capacity t) \<or>
                  csize t \<ge> capacity t
               then Done (Some (c_int (push_bit 1 (capacity t)))) g
               else Done None g
           | D_Remove \<Rightarrow>
               if csize t < drop_bit 1 (capacity t)
               then Done (Some (drop_bit 1 (capacity t))) g
               else Done None g)
          (\<lambda>new_capacity g1.
             case new_capacity of
               None \<Rightarrow> Done D_Success g1
             | Some nc \<Rightarrow>
                 obind (perform nc g1) (\<lambda>success g2.
                   if success = D_Error then Done D_Error g2 else Done D_Success g2))))"

fun rehash_chain ::
  "(string option \<Rightarrow> 'v ptr \<Rightarrow> ('v, 'w) globals \<Rightarrow> (int, ('v, 'w) globals) outcome) \<Rightarrow>
   'v carrier_s list \<Rightarrow> ('v, 'w) globals \<Rightarrow> (unit, ('v, 'w) globals) outcome" where
  "rehash_chain put [] g = Done () g"
| "rehash_chain put (walker # rest) g =
     obind (put (Some (ckey walker)) (cvalue walker) g) (\<lambda>_ g1.
       obind (free_entry (walker\<lparr>cvalue := None\<rparr>) g1) (\<lambda>_ g2.
         rehash_chain put rest g2))"

text \<open>
  \<^verbatim>\<open>perform_rehash\<close> walks the buckets \<open>0 ..< old_capacity\<close> of the old array, each chain
  from its head; the old array is detached from the table before the walk, so the
  nodes it visits are those of \<open>concat\<close> of the old buckets, in order.
\<close>

definition perform_rehash_with ::
  "(string option \<Rightarrow> 'v ptr \<Rightarrow> ('v, 'w) globals \<Rightarrow> (int, ('v, 'w) globals) outcome) \<Rightarrow>
   int \<Rightarrow> ('v, 'w) globals \<Rightarrow> (int, ('v, 'w) globals) outcome" where
  "perform_rehash_with put new_capacity g0 =
     (let g = croquette_set_error D_No_Error g0 in
      case croquette g of
        None \<Rightarrow> Done D_Error (croquette_set_error D_Uninitialized g)
      | Some t \<Rightarrow>
          if new_capacity \<le> 0 then Done D_Error (croquette_set_error D_Invalid_Capacity g)
          else
            (case calloc g of
               (False, g1) \<Rightarrow> Done D_Error (croquette_set_error D_Insufficient_Memory g1)
             | (True, g1) \<Rightarrow>
                 let old_sable = table t;
                     old_capacity = capacity t;
                     g2 = g1\<lparr>croquette :=
                               Some (t\<lparr>table := replicate (nat new_capacity) [],
                                       capacity := new_capacity, csize := 0\<rparr>)\<rparr>
                 in if length old_sable < nat old_capacity then Fault Out_Of_Bounds
                    else
                      obind (rehash_chain put (concat (take (nat old_capacity) old_sable)) g2)
                        (\<lambda>_ g3. Done D_Success g3)))"

text \<open>
  On the update path \<^verbatim>\<open>croquette_put\<close> calls \<^verbatim>\<open>free_value\<close> without looking at
  \<^verbatim>\<open>do_free\<close>. On the insert path it hashes the copy of the key held by the new node;
  \<^verbatim>\<open>strlen\<close> runs off a copy that has no terminator (\<open>Key_Overread\<close>). The result of
  \<^verbatim>\<open>insert_at_index\<close> is not looked at.
\<close>

definition put_with ::
  "(croquette_action \<Rightarrow> ('v, 'w) globals \<Rightarrow> (int, ('v, 'w) globals) outcome) \<Rightarrow>
   string option \<Rightarrow> 'v ptr \<Rightarrow> ('v, 'w) globals \<Rightarrow> (int, ('v, 'w) globals) outcome" where
  "put_with rehash_fn key v g0 =
     (let g = croquette_set_error D_No_Error g0 in
      case croquette g of
        None \<Rightarrow> Done D_Error (croquette_set_error D_Uninitialized g)
      | Some _ \<Rightarrow>
          (case key of
             None \<Rightarrow> Done D_Error (croquette_set_error D_Invalid_Key g)
           | Some k \<Rightarrow>
               if length k = 0 then Done D_Error (croquette_set_error D_Invalid_Key g)
               else
                 obind (croquette_find key g) (\<lambda>entry g1.
                   case entry of
                     Some (b, p) \<Rightarrow>
                       obind (deref g1) (\<lambda>t g2.
                         case entry_at t (b, p) of
                           None \<Rightarrow> Fault Dangling
                         | Some e \<Rightarrow>
                             (case value_compare t of
                                None \<Rightarrow> Fault Null_Call
                              | Some cmp \<Rightarrow>
                                  if cmp (cvalue e) v \<noteq> 0 then
                                    (case free_value t of
                                       None \<Rightarrow> Fault Null_Call
                                     | Some f \<Rightarrow>
                                         Done D_Success
                                           (g2\<lparr>world := f (cvalue e) (world g2),
                                               croquette :=
                                                 Some (t\<lparr>table := (table t)
                                                   [b := (table t ! b)[p := e\<lparr>cvalue := v\<rparr>]]\<rparr>)\<rparr>))
                                  else Done D_Success g2))
                   | None \<Rightarrow>
                       obind (carrier_create k v g1) (\<lambda>created g2.
                         case created of
                           None \<Rightarrow> Done D_Error (croquette_set_error D_Insufficient_Memory g2)
                         | Some e \<Rightarrow>
                             if MAX_KEY_SIZE < length k + 1 then Fault Key_Overread
                             else
                               obind (get_index (Some (ckey e)) g2) (\<lambda>index g3.
                                 if index = D_Error then Done D_Error g3
                                 else
                                   obind (insert_at_index index e g3) (\<lambda>_ g4.
                                     obind (rehash_fn D_Insert g4) (\<lambda>rehash_success g5.
                                       if rehash_success = D_Error then Done D_Error g5
                                       else Done D_Success g5)))))))"

primrec perform_rehash ::
  "nat \<Rightarrow> int \<Rightarrow> ('v, 'w) globals \<Rightarrow> (int, ('v, 'w) globals) outcome" where
  "perform_rehash 0 = (\<lambda>new_capacity g. Out_Of_Fuel)"
| "perform_rehash (Suc n) = perform_rehash_with (put_with (rehash_with (perform_rehash n)))"

definition rehash ::
  "nat \<Rightarrow> croquette_action \<Rightarrow> ('v, 'w) globals \<Rightarrow> (int, ('v, 'w) globals) outcome" where
  "rehash n = rehash_with (perform_rehash n)"

definition croquette_put ::
  "nat \<Rightarrow> string option \<Rightarrow> 'v ptr \<Rightarrow> ('v, 'w) globals \<Rightarrow> (int, ('v, 'w) globals) outcome" where
  "croquette_put n = put_with (rehash n)"

subsection \<open>Removal, clearing, creation and destruction\<close>

definition croquette_remove ::
  "nat \<Rightarrow> string option \<Rightarrow> ('v, 'w) globals \<Rightarrow> (int, ('v, 'w) globals) outcome" where
  "croquette_remove n key g0 =
     (let g = croquette_set_error D_No_Error g0 in
      case croquette g of
        None \<Rightarrow> Done D_Error (croquette_set_error D_Uninitialized g)
      | Some _ \<Rightarrow>
          (case key of
             None \<Rightarrow> Done D_Error (croquette_set_error D_Invalid_Key g)
           | Some k \<Rightarrow>
               if length k = 0 then Done D_Error (croquette_set_error D_Invalid_Key g)
               else
                 obind (croquette_find key g) (\<lambda>entry g1.
                   case entry of
                     None \<Rightarrow> Done D_Success g1
                   | Some loc \<Rightarrow>
                       obind (remove_entry entry g1) (\<lambda>_ g2.
                         obind (rehash n D_Remove g2) (\<lambda>rehash_success g3.
                           if rehash_success = D_Error then Done D_Error g3
                           else Done D_Success g3)))))"

text \<open>
  The inner loop of \<^verbatim>\<open>croquette_clear\<close> removes the nodes of one chain from the head;
  after each removal the next node of the walk is the new head of the chain.
\<close>

fun clear_chain :: "nat \<Rightarrow> nat \<Rightarrow> ('v, 'w) globals \<Rightarrow> (unit, ('v, 'w) globals) outcome" where
  "clear_chain i 0 g = Done () g"
| "clear_chain i (Suc n) g =
     obind (remove_entry (Some (i, 0)) g) (\<lambda>_ g1. clear_chain i n g1)"

fun clear_buckets :: "nat \<Rightarrow> nat \<Rightarrow> ('v, 'w) globals \<Rightarrow> (unit, ('v, 'w) globals) outcome" where
  "clear_buckets i 0 g = Done () g"
| "clear_buckets i (Suc k) g =
     obind (deref g) (\<lambda>t _.
       if length (table t) \<le> i then Fault Out_Of_Bounds
       else
         obind (clear_chain i (length (table t ! i)) g) (\<lambda>_ g1.
           obind (deref g1) (\<lambda>t1 _.
             clear_buckets (Suc i) k (g1\<lparr>croquette := Some (t1\<lparr>table := (table t1)[i := []]\<rparr>)\<rparr>))))"

definition croquette_clear ::
  "nat \<Rightarrow> ('v, 'w) globals \<Rightarrow> (int, ('v, 'w) globals) outcome" where
  "croquette_clear n g0 =
     (let g = croquette_set_error D_No_Error g0 in
      case croquette g of
        None \<Rightarrow> Done D_Error (croquette_set_error D_Uninitialized g)
      | Some t \<Rightarrow>
          obind (clear_buckets 0 (nat (capacity t)) g) (\<lambda>_ g1.
            obind (deref g1) (\<lambda>t1 _. perform_rehash n (base_capacity t1) g1)))"

definition croquette_destroy ::
  "nat \<Rightarrow> ('v, 'w) globals \<Rightarrow> (unit, ('v, 'w) globals) outcome" where
  "croquette_destroy n g =
     (case croquette g of
        None \<Rightarrow> Done () g
      | Some _ \<Rightarrow>
          obind (croquette_clear n g) (\<lambda>ret g1.
            if ret = D_Error then Done () g1
            else Done () (g1\<lparr>croquette := None\<rparr>)))"

text \<open>
  When the second allocation of \<^verbatim>\<open>croquette_create\<close> fails, the table structure is
  freed but the global pointer keeps its address; any later call would use freed
  memory, so the model stops there (\<open>Dangling\<close>).
\<close>

definition croquette_create ::
  "int \<Rightarrow> int \<Rightarrow> ('v ptr \<Rightarrow> 'w \<Rightarrow> 'w) option \<Rightarrow> ('v ptr \<Rightarrow> 'v ptr \<Rightarrow> int) option \<Rightarrow>
   ('v, 'w) globals \<Rightarrow> (int, ('v, 'w) globals) outcome" where
  "croquette_create initial_capacity dofree free_fn compare_fn g0 =
     (let g = croquette_set_error D_No_Error g0 in
      if croquette g \<noteq> None then Done D_Error (croquette_set_error D_Exists g)
      else
        let cap = (if initial_capacity \<le> 0 then CROQUETTE_DEFAULT_INITIAL_SIZE
                   else initial_capacity)
        in if dofree = Croquette_Free_Value \<and> free_fn = None
           then Done D_Error (croquette_set_error D_FreeValue_Missing g)
           else if compare_fn = None
           then Done D_Error (croquette_set_error D_ValueCompare_Missing g)
           else
             (case calloc g of
                (False, g1) \<Rightarrow> Done D_Error (croquette_set_error D_Insufficient_Memory g1)
              | (True, g1) \<Rightarrow>
                  (case calloc g1 of
                     (False, g2) \<Rightarrow> Fault Dangling
                   | (True, g2) \<Rightarrow>
                       Done D_Success
                         (g2\<lparr>croquette :=
                              Some \<lparr>do_free = dofree, csize = 0, capacity = cap,
                                    base_capacity = cap, table = replicate (nat cap) [],
                                    free_value = free_fn, value_compare = compare_fn\<rparr>\<rparr>))))"

subsection \<open>A driver after \<^verbatim>\<open>test_croquette_put\<close>\<close>

text \<open>
  The test puts keys one after the other and reads \<^verbatim>\<open>croquette_size()\<close> and
  \<^verbatim>\<open>croquette_capacity()\<close> after each put. \<open>put_all\<close> returns the pairs it reads.
\<close>

fun put_all ::
  "nat \<Rightarrow> (string \<times> 'v ptr) list \<Rightarrow> ('v, 'w) globals \<Rightarrow>
   ((int \<times> int) list, ('v, 'w) globals) outcome" where
  "put_all n [] g = Done [] g"
| "put_all n ((k, v) # rest) g =
     obind (croquette_put n (Some k) v g) (\<lambda>_ g1.
       let sz = fst (croquette_size g1); cap = fst (croquette_capacity (snd (croquette_size g1)))
       in obind (put_all n rest (snd (croquette_capacity (snd (croquette_size g1)))))
            (\<lambda>seen g2. Done ((sz, cap) # seen) g2))"

text \<open>
  \<open>put_results\<close> is the same run, keeping for each put the value it returned with the
  size and the capacity read after it.
\<close>

fun put_results ::
  "nat \<Rightarrow> (string \<times> 'v ptr) list \<Rightarrow> ('v, 'w) globals \<Rightarrow>
   ((int \<times> int \<times> int) list, ('v, 'w) globals) outcome" where
  "put_results n [] g = Done [] g"
| "put_results n ((k, v) # rest) g =
     obind (croquette_put n (Some k) v g) (\<lambda>ret g1.
       let sz = fst (croquette_size g1); cap = fst (croquette_capacity (snd (croquette_size g1)))
       in obind (put_results n rest (snd (croquette_capacity (snd (croquette_size g1)))))
            (\<lambda>seen g2. Done ((ret, sz, cap) # seen) g2))"

text \<open>What a caller sees of a call: the value it returned, and size and capacity after it.\<close>

definition returned :: "('a, 's) outcome \<Rightarrow> 'a option" where
  "returned r = (case r of Done a s \<Rightarrow> Some a | Fault x \<Rightarrow> None | Out_Of_Fuel \<Rightarrow> None)"

definition faulted :: "('a, 's) outcome \<Rightarrow> fault option" where
  "faulted r = (case r of Done a s \<Rightarrow> None | Fault x \<Rightarrow> Some x | Out_Of_Fuel \<Rightarrow> None)"

definition size_capacity :: "('a, ('v, 'w) globals) outcome \<Rightarrow> (int \<times> int) option" where
  "size_capacity r =
     (case r of
        Done a g \<Rightarrow> Some (fst (croquette_size g), fst (croquette_capacity g))
      | Fault x \<Rightarrow> None
      | Out_Of_Fuel \<Rightarrow> None)"

definition released :: "('a, ('v, 'w) globals) outcome \<Rightarrow> 'w option" where
  "released r = (case r of Done a g \<Rightarrow> Some (world g) | Fault x \<Rightarrow> None | Out_Of_Fuel \<Rightarrow> None)"

text \<open>
  The invariants the specification lists, as a test on a state: a table exists, its
  size is not negative, its capacity is at least 1, the size is the number of nodes
  over all chains, and no key occurs twice. \<open>holds_after P r\<close> says that the call
  with outcome \<open>r\<close> returned and left a state of which \<open>P\<close> holds.
\<close>

definition spec_invariants :: "('v, 'w) globals \<Rightarrow> bool" where
  "spec_invariants g =
     (case croquette g of
        None \<Rightarrow> False
      | Some t \<Rightarrow>
          0 \<le> csize t \<and> 1 \<le> capacity t \<and> csize t = int (length (concat (table t))) \<and>
          distinct (map ckey (concat (table t))))"

definition holds_after :: "('s \<Rightarrow> bool) \<Rightarrow> ('a, 's) outcome \<Rightarrow> bool" where
  "holds_after P r = (case r of Done a s \<Rightarrow> P s | Fault x \<Rightarrow> False | Out_Of_Fuel \<Rightarrow> False)"

text \<open>
  A start state without a table, and callbacks for concrete runs: values are
  numbered, \<open>log_release\<close> records each pointer passed to \<^verbatim>\<open>free_value\<close> (latest
  first), \<open>compare_nat\<close> is 0 on equal pointers.
\<close>

definition no_table :: "(nat, nat ptr list) globals" where
  "no_table = \<lparr>croquette = None, croquette_error = 0, world = [], allocs = []\<rparr>"

definition log_release :: "nat ptr \<Rightarrow> nat ptr list \<Rightarrow> nat ptr list" where
  "log_release p w = p # w"

definition compare_nat :: "nat ptr \<Rightarrow> nat ptr \<Rightarrow> int" where
  "compare_nat a b = (if a = b then 0 else 1)"

subsection \<open>The hash as the specification words it\<close>

text \<open>
  Each character's ordinal value is added to a running total, and the total is shifted
  left by 7 bits after every character except the last; a key of one character is
  still shifted once. \<open>accumulate val\<close> is this accumulation over the integers, with no
  width, for a reading \<open>val\<close> of the characters; \<open>hash_spec\<close> is the accumulation of the
  ordinal values, which lie between 0 and 255.
\<close>

fun shift_add :: "(char \<Rightarrow> int) \<Rightarrow> int \<Rightarrow> string \<Rightarrow> int" where
  "shift_add val tot [] = tot"
| "shift_add val tot [c] = tot + val c"
| "shift_add val tot (c # d # cs) = shift_add val ((tot + val c) * 2 ^ 7) (d # cs)"

definition accumulate :: "(char \<Rightarrow> int) \<Rightarrow> string \<Rightarrow> int" where
  "accumulate val key = (case key of [c] \<Rightarrow> val c * 2 ^ 7 | _ \<Rightarrow> shift_add val 0 key)"

definition ordinal :: "char \<Rightarrow> int" where
  "ordinal c = of_char c"

definition hash_spec :: "string \<Rightarrow> int" where
  "hash_spec key = accumulate ordinal key"

text \<open>
  What separates the code from these words, written over the integers: a \<^verbatim>\<open>char\<close> above
  127 counts as its ordinal value less 256 (\<open>signed_char\<close>), and a \<^verbatim>\<open>long\<close> holds the low
  64 bits of a total, read in two's complement (\<open>long_value\<close>). \<open>seven_bit\<close> holds of a
  key whose characters are all below 128.
\<close>

definition signed_char :: "char \<Rightarrow> int" where
  "signed_char c = (if ordinal c < 128 then ordinal c else ordinal c - 256)"

definition long_value :: "int \<Rightarrow> int" where
  "long_value x = (x + 2 ^ 63) mod 2 ^ 64 - 2 ^ 63"

definition seven_bit :: "string \<Rightarrow> bool" where
  "seven_bit key = list_all (\<lambda>c. ordinal c < 128) key"

text \<open>
  The loop of \<open>hash_code\<close> as a recursion over the characters of the key, on the same
  64-bit words: a step of the proofs, not a reading of the specification.
\<close>

fun hash_acc :: "64 word \<Rightarrow> string \<Rightarrow> 64 word" where
  "hash_acc acc [] = acc"
| "hash_acc acc [c] = acc + char_long c"
| "hash_acc acc (c # d # cs) = hash_acc (push_bit 7 (acc + char_long c)) (d # cs)"

definition hash_unrolled :: "string \<Rightarrow> 64 word" where
  "hash_unrolled key = (case key of [c] \<Rightarrow> push_bit 7 (char_long c) | _ \<Rightarrow> hash_acc 0 key)"

subsection \<open>Invariants\<close>

text \<open>
  A key is well-behaved when it is not empty, its copy keeps its terminator, and its
  hash code is not negative, so that \<^verbatim>\<open>%\<close> gives an index inside the bucket array.
\<close>

definition valid_key :: "string \<Rightarrow> bool" where
  "valid_key k \<longleftrightarrow> k \<noteq> [] \<and> length k < MAX_KEY_SIZE \<and> 0 \<le> sint (hash_code k)"

definition bucket_of :: "string \<Rightarrow> int \<Rightarrow> int" where
  "bucket_of k cap = sint (hash_code k) smod cap"

definition keys_of :: "('v, 'w) croquette_s \<Rightarrow> string set" where
  "keys_of t = ckey ` set (concat (table t))"

definition grows :: "int \<Rightarrow> int \<Rightarrow> bool" where
  "grows sz cap \<longleftrightarrow> sz > drop_bit 1 cap + drop_bit 2 cap \<or> sz \<ge> cap"

definition table_inv :: "('v, 'w) croquette_s \<Rightarrow> bool" where
  "table_inv t \<longleftrightarrow>
     1 \<le> capacity t \<and> 1 \<le> base_capacity t \<and>
     length (table t) = nat (capacity t) \<and>
     csize t = int (length (concat (table t))) \<and>
     distinct (map ckey (concat (table t))) \<and>
     (\<forall>b < length (table t). \<forall>e \<in> set (table t ! b).
        valid_key (ckey e) \<and> bucket_of (ckey e) (capacity t) = int b) \<and>
     value_compare t \<noteq> None \<and>
     (do_free t = D_Do_Free \<longrightarrow> free_value t \<noteq> None)"

definition same_config :: "('v, 'w) croquette_s \<Rightarrow> ('v, 'w) croquette_s \<Rightarrow> bool" where
  "same_config t t' \<longleftrightarrow>
     do_free t' = do_free t \<and> base_capacity t' = base_capacity t \<and>
     free_value t' = free_value t \<and> value_compare t' = value_compare t"

text \<open>
  The state of a program that has created a table and has memory left: the table
  satisfies its invariant, no growth is pending, and no allocation will fail.
\<close>

definition healthy :: "('v, 'w) globals \<Rightarrow> bool" where
  "healthy g \<longleftrightarrow>
     (\<exists>t. croquette g = Some t \<and> table_inv t \<and> \<not> grows (csize t) (capacity t)) \<and>
     allocs g = []"

text \<open>
  A table as \<^verbatim>\<open>croquette_create(1, ...)\<close> followed by one put of the key \<^verbatim>\<open>"bee"\<close>
  leaves it: one node, two buckets.
\<close>

definition demo_table :: "(nat, nat ptr list) croquette_s" where
  "demo_table =
     \<lparr>do_free = 1, csize = 1, capacity = 2, base_capacity = 1,
      table = [[], [\<lparr>ckey = ''bee'', cvalue = Some 22\<rparr>]],
      free_value = Some log_release, value_compare = Some compare_nat\<rparr>"

definition demo :: "(nat, nat ptr list) globals" where
  "demo = \<lparr>croquette = Some demo_table, croquette_error = 0, world = [], allocs = []\<rparr>"

text \<open>
  The policy of the specification, run for \<open>m\<close> inserts from a given size and capacity:
  after each insert the capacity doubles exactly when \<open>grows\<close> holds of the new size.
\<close>

fun growth_trace :: "int \<Rightarrow> int \<Rightarrow> nat \<Rightarrow> (int \<times> int) list" where
  "growth_trace sz cap 0 = []"
| "growth_trace sz cap (Suc m) =
     (let cap' = (if grows (sz + 1) cap then push_bit 1 cap else cap)
      in (sz + 1, cap') # growth_trace (sz + 1) cap' m)"

text \<open>
  Two tables the proofs name: \<open>appended t k v\<close> has a new node for \<open>k\<close> at the tail of
  the chain \<open>k\<close> hashes to, \<open>emptied t nc\<close> is the table with a fresh bucket array of
  \<open>nc\<close> buckets. \<open>settles r ret P\<close> says that a call returned \<open>ret\<close>, left a table
  for which \<open>P\<close> holds, and left memory available.
\<close>

definition appended :: "('v, 'w) croquette_s \<Rightarrow> string \<Rightarrow> 'v ptr \<Rightarrow> ('v, 'w) croquette_s" where
  "appended t k v =
     t\<lparr>table := (table t)[nat (bucket_of k (capacity t)) :=
                    table t ! nat (bucket_of k (capacity t)) @ [\<lparr>ckey = k, cvalue = v\<rparr>]],
       csize := csize t + 1\<rparr>"

definition emptied :: "('v, 'w) croquette_s \<Rightarrow> int \<Rightarrow> ('v, 'w) croquette_s" where
  "emptied t nc = t\<lparr>table := replicate (nat nc) [], capacity := nc, csize := 0\<rparr>"

definition settles ::
  "('r, ('v, 'w) globals) outcome \<Rightarrow> 'r \<Rightarrow> (('v, 'w) croquette_s \<Rightarrow> bool) \<Rightarrow> bool" where
  "settles r ret P \<longleftrightarrow>
     (\<exists>g' t'. r = Done ret g' \<and> croquette g' = Some t' \<and> allocs g' = [] \<and> P t')"

section \<open>Basic facts\<close>

lemma set_error_eq [simp]: "croquette_set_error e g = g\<lparr>croquette_error := e\<rparr>"
  by (simp add: croquette_set_error_def Let_def)

lemma calloc_available [simp]: "allocs g = [] \<Longrightarrow> calloc g = (True, g)"
  by (simp add: calloc_def)

lemma deref_Some [simp]: "croquette g = Some t \<Longrightarrow> deref g = Done t g"
  by (simp add: deref_def)

lemma deref_None [simp]: "croquette g = None \<Longrightarrow> deref g = Fault Null_Deref"
  by (simp add: deref_def)

lemma insert_at_index_rejects:
  "croquette g = Some t \<Longrightarrow> index < 0 \<or> capacity t < index \<Longrightarrow>
   insert_at_index index e g = Done D_Error (g\<lparr>croquette_error := D_Invalid_Index\<rparr>)"
  by (auto simp: insert_at_index_def Let_def)

subsection \<open>The hash loop\<close>

lemma hash_loop_step:
  "i < sz \<Longrightarrow> hash_loop key sz i code =
     hash_loop key sz (Suc i)
       (if sz = 1 \<or> i < sz - 1 then push_bit 7 (code + char_long (key ! i))
        else code + char_long (key ! i))"
  by (subst hash_loop.simps) (simp add: Let_def)

lemma hash_loop_done: "\<not> i < sz \<Longrightarrow> hash_loop key sz i code = code"
  by (subst hash_loop.simps) simp

lemma hash_loop_acc:
  "i < length key \<Longrightarrow> length key \<noteq> 1 \<Longrightarrow>
   hash_loop key (length key) i code = hash_acc code (drop i key)"
proof (induction "length key - i" arbitrary: i code)
  case 0
  then show ?case by simp
next
  case (Suc m)
  show ?case
  proof (cases "i < length key - 1")
    case True
    then have lt: "Suc i < length key" by simp
    have dr: "drop i key = key ! i # key ! (Suc i) # drop (Suc (Suc i)) key"
      using lt Suc.prems(1) by (simp add: Cons_nth_drop_Suc)
    have dr2: "drop (Suc i) key = key ! (Suc i) # drop (Suc (Suc i)) key"
      using lt by (simp add: Cons_nth_drop_Suc)
    have "hash_loop key (length key) i code =
          hash_loop key (length key) (Suc i) (push_bit 7 (code + char_long (key ! i)))"
      using True Suc.prems by (simp add: hash_loop_step)
    also have "\<dots> = hash_acc (push_bit 7 (code + char_long (key ! i))) (drop (Suc i) key)"
      using Suc lt by (intro Suc.hyps(1)) auto
    also have "\<dots> = hash_acc code (drop i key)"
      by (simp only: dr dr2 hash_acc.simps)
    finally show ?thesis .
  next
    case False
    with Suc.prems have i: "Suc i = length key" by simp
    have dr: "drop i key = [key ! i]"
      using Suc.prems(1) i by (metis Cons_nth_drop_Suc drop_all order_refl)
    have "hash_loop key (length key) i code =
          hash_loop key (length key) (Suc i) (code + char_long (key ! i))"
      using False Suc.prems by (simp add: hash_loop_step)
    also have "\<dots> = code + char_long (key ! i)"
      using i by (simp add: hash_loop_done)
    finally show ?thesis by (simp add: dr)
  qed
qed

lemma hash_code_unrolled: "key \<noteq> [] \<Longrightarrow> hash_code key = hash_unrolled key"
proof (cases key)
  case Nil
  assume "key \<noteq> []" with Nil show ?thesis by simp
next
  case (Cons c cs)
  show ?thesis
  proof (cases cs)
    case Nil
    with Cons show ?thesis
      by (simp add: hash_code_def hash_unrolled_def hash_loop_step hash_loop_done)
  next
    case (Cons d ds)
    with \<open>key = c # cs\<close> have "length key \<noteq> 1" "0 < length key" by auto
    from hash_loop_acc [OF this(2) this(1)] Cons \<open>key = c # cs\<close> show ?thesis
      by (simp add: hash_code_def hash_unrolled_def)
  qed
qed

declare perform_rehash.simps [simp del]

subsection \<open>Buckets, chains and lookups\<close>

lemma smod_nonneg: "0 \<le> a \<Longrightarrow> 0 < b \<Longrightarrow> (a::int) smod b = a mod b"
  by (simp add: smod_int_alt_def sgn_if)

lemma bucket_of_range:
  "valid_key k \<Longrightarrow> 1 \<le> cap \<Longrightarrow> 0 \<le> bucket_of k cap \<and> bucket_of k cap < cap"
  by (simp add: valid_key_def bucket_of_def smod_nonneg)

lemma is_key_valid:
  "length (ckey e) < MAX_KEY_SIZE \<Longrightarrow> length k < MAX_KEY_SIZE \<Longrightarrow> is_key e k \<longleftrightarrow> ckey e = k"
  by (simp add: is_key_def)

lemma chain_walk_None: "chain_walk es k p = None \<longleftrightarrow> (\<forall>e \<in> set es. \<not> is_key e k)"
  by (induction es arbitrary: p) auto

lemma chain_walk_Some:
  "chain_walk es k p = Some q \<Longrightarrow> \<exists>j < length es. q = p + j \<and> is_key (es ! j) k"
proof (induction es arbitrary: p)
  case Nil
  then show ?case by simp
next
  case (Cons e es)
  show ?case
  proof (cases "is_key e k")
    case True
    with Cons.prems show ?thesis by auto
  next
    case False
    with Cons.prems have "chain_walk es k (Suc p) = Some q" by simp
    from Cons.IH [OF this] obtain j where "j < length es" "q = Suc p + j" "is_key (es ! j) k"
      by blast
    then have "Suc j < length (e # es) \<and> q = p + Suc j \<and> is_key ((e # es) ! Suc j) k"
      by simp
    then show ?thesis by blast
  qed
qed

lemma get_index_Some:
  "croquette g = Some t \<Longrightarrow> k \<noteq> [] \<Longrightarrow> capacity t \<noteq> 0 \<Longrightarrow>
   get_index (Some k) g = Done (bucket_of k (capacity t)) (g\<lparr>croquette_error := D_No_Error\<rparr>)"
  by (simp add: get_index_def bucket_of_def)

lemma concat_split:
  "b < length xs \<Longrightarrow> concat xs = concat (take b xs) @ xs ! b @ concat (drop (Suc b) xs)"
  by (metis concat.simps(2) concat_append id_take_nth_drop)

lemma concat_update:
  "b < length xs \<Longrightarrow> concat (xs[b := ys]) = concat (take b xs) @ ys @ concat (drop (Suc b) xs)"
  by (simp add: upd_conv_take_nth_drop)

lemma in_concat_nth: "b < length xs \<Longrightarrow> e \<in> set (xs ! b) \<Longrightarrow> e \<in> set (concat xs)"
  by (metis UN_I nth_mem set_concat)

lemma in_concat_bucket: "e \<in> set (concat xs) \<Longrightarrow> \<exists>b < length xs. e \<in> set (xs ! b)"
  by (metis UN_E in_set_conv_nth set_concat)

lemma inv_bucket:
  "table_inv t \<Longrightarrow> b < length (table t) \<Longrightarrow> e \<in> set (table t ! b) \<Longrightarrow>
   valid_key (ckey e) \<and> bucket_of (ckey e) (capacity t) = int b"
  by (simp add: table_inv_def)

lemma inv_valid:
  assumes "table_inv t" and "e \<in> set (concat (table t))"
  shows "valid_key (ckey e)"
proof -
  from in_concat_bucket [OF assms(2)] obtain b where "b < length (table t)" "e \<in> set (table t ! b)"
    by blast
  from inv_bucket [OF assms(1) this] show ?thesis by simp
qed

lemma inv_capacity: "table_inv t \<Longrightarrow> 1 \<le> capacity t \<and> length (table t) = nat (capacity t)"
  by (simp add: table_inv_def)

lemma bucket_in_table:
  assumes "table_inv t" and "valid_key k"
  shows "0 \<le> bucket_of k (capacity t) \<and> nat (bucket_of k (capacity t)) < length (table t) \<and>
   bucket_of k (capacity t) \<noteq> D_Error \<and> \<not> int (length (table t)) \<le> bucket_of k (capacity t)
   \<and> \<not> bucket_of k (capacity t) > capacity t"
proof -
  from assms(1) have c: "1 \<le> capacity t" and l: "length (table t) = nat (capacity t)"
    by (simp_all add: table_inv_def)
  from bucket_of_range [OF assms(2) c]
  have r: "0 \<le> bucket_of k (capacity t)" "bucket_of k (capacity t) < capacity t" by simp_all
  show ?thesis unfolding l D_Error_def using r c by linarith
qed

lemma valid_key_nonempty: "valid_key k \<Longrightarrow> k \<noteq> [] \<and> length k \<noteq> 0 \<and> length k < MAX_KEY_SIZE"
  by (simp add: valid_key_def)

lemma find_unfold:
  assumes "croquette g = Some t" and "k \<noteq> []" and "capacity t \<noteq> 0"
    and "bucket_of k (capacity t) \<noteq> D_Error" and "0 \<le> bucket_of k (capacity t)"
    and "nat (bucket_of k (capacity t)) < length (table t)"
  shows "croquette_find (Some k) g =
           (case chain_walk (table t ! nat (bucket_of k (capacity t))) k 0 of
              None \<Rightarrow> Done None (g\<lparr>croquette_error := D_No_Error\<rparr>)
            | Some p \<Rightarrow> Done (Some (nat (bucket_of k (capacity t)), p))
                         (g\<lparr>croquette_error := D_No_Error\<rparr>))"
proof -
  have gi: "get_index (Some k) (g\<lparr>croquette_error := D_No_Error\<rparr>) =
        Done (bucket_of k (capacity t)) (g\<lparr>croquette_error := D_No_Error\<rparr>)"
    using assms(1-3) by (simp add: get_index_Some)
  have "\<not> int (length (table t)) \<le> bucket_of k (capacity t)"
    using assms(5,6) by linarith
  then show ?thesis
    using assms(1,2,4,5)
    by (simp add: croquette_find_def gi Let_def)
qed

lemma find_absent:
  assumes g: "croquette g = Some t" and inv: "table_inv t" and k: "valid_key k"
    and absent: "k \<notin> keys_of t"
  shows "croquette_find (Some k) g = Done None (g\<lparr>croquette_error := D_No_Error\<rparr>)"
proof -
  let ?b = "nat (bucket_of k (capacity t))"
  note bt = bucket_in_table [OF inv k]
  have "\<forall>e \<in> set (table t ! ?b). \<not> is_key e k"
  proof
    fix e assume e: "e \<in> set (table t ! ?b)"
    from bt have "?b < length (table t)" by simp
    from in_concat_nth [OF this e] have "e \<in> set (concat (table t))" .
    with absent have "ckey e \<noteq> k" by (auto simp: keys_of_def)
    moreover have "valid_key (ckey e)" using inv_bucket [OF inv _ e] bt by simp
    ultimately show "\<not> is_key e k"
      using k by (simp add: is_key_valid valid_key_nonempty)
  qed
  then have "chain_walk (table t ! ?b) k 0 = None" by (simp add: chain_walk_None)
  moreover have "capacity t \<noteq> 0" using inv_capacity [OF inv] by simp
  ultimately show ?thesis
    using find_unfold [OF g, of k] bt k
    by (simp add: valid_key_nonempty)
qed

lemma find_present:
  assumes g: "croquette g = Some t" and inv: "table_inv t" and k: "valid_key k"
    and present: "k \<in> keys_of t"
  shows "\<exists>p. croquette_find (Some k) g =
               Done (Some (nat (bucket_of k (capacity t)), p)) (g\<lparr>croquette_error := D_No_Error\<rparr>) \<and>
             p < length (table t ! nat (bucket_of k (capacity t))) \<and>
             ckey (table t ! nat (bucket_of k (capacity t)) ! p) = k"
proof -
  let ?b = "nat (bucket_of k (capacity t))"
  note bt = bucket_in_table [OF inv k]
  from present obtain e where e: "e \<in> set (concat (table t))" "ckey e = k"
    by (auto simp: keys_of_def)
  from in_concat_bucket [OF e(1)] obtain b where b: "b < length (table t)" "e \<in> set (table t ! b)"
    by blast
  with inv_bucket [OF inv b] e have "b = ?b" by simp
  with b e k have "\<exists>e \<in> set (table t ! ?b). is_key e k"
    by (auto simp: is_key_def)
  then obtain q where q: "chain_walk (table t ! ?b) k 0 = Some q"
    using chain_walk_None [of "table t ! ?b" k 0] by (cases "chain_walk (table t ! ?b) k 0") auto
  from chain_walk_Some [OF q] have ql: "q < length (table t ! ?b)"
    and qk: "is_key (table t ! ?b ! q) k" by auto
  have "table t ! ?b ! q \<in> set (table t ! ?b)" using ql by simp
  from inv_bucket [OF inv _ this] bt have "valid_key (ckey (table t ! ?b ! q))" by simp
  with qk k have "ckey (table t ! ?b ! q) = k"
    by (simp add: is_key_valid valid_key_nonempty)
  moreover have "capacity t \<noteq> 0" using inv_capacity [OF inv] by simp
  then have "croquette_find (Some k) g =
               Done (Some (?b, q)) (g\<lparr>croquette_error := D_No_Error\<rparr>)"
    using find_unfold [OF g, of k] bt k q
    by (simp add: valid_key_nonempty)
  ultimately show ?thesis using ql by blast
qed

subsection \<open>The invariant under the three chain updates\<close>

lemma keys_of_simps [simp]:
  "keys_of (t\<lparr>csize := n\<rparr>) = keys_of t"
  "keys_of (t\<lparr>capacity := c\<rparr>) = keys_of t"
  by (simp_all add: keys_of_def)

lemma inv_fresh:
  assumes "table_inv t" and "1 \<le> nc"
  shows "table_inv (t\<lparr>table := replicate (nat nc) [], capacity := nc, csize := 0\<rparr>)"
    and "keys_of (t\<lparr>table := replicate (nat nc) [], capacity := nc, csize := 0\<rparr>) = {}"
  using assms by (simp_all add: table_inv_def keys_of_def)

lemma inv_append:
  assumes inv: "table_inv t" and k: "valid_key k" and absent: "k \<notin> keys_of t"
    and b: "b = nat (bucket_of k (capacity t))"
    and t': "t' = t\<lparr>table := (table t)[b := table t ! b @ [\<lparr>ckey = k, cvalue = v\<rparr>]],
                     csize := csize t + 1\<rparr>"
  shows "table_inv t'" and "keys_of t' = insert k (keys_of t)"
proof -
  let ?e = "\<lparr>ckey = k, cvalue = v\<rparr>"
  note bt = bucket_in_table [OF inv k]
  from bt b have bl: "b < length (table t)" by simp
  have cs: "concat (table t) = concat (take b (table t)) @ table t ! b @ concat (drop (Suc b) (table t))"
    by (rule concat_split [OF bl])
  have cu: "concat (table t') =
            concat (take b (table t)) @ (table t ! b @ [?e]) @ concat (drop (Suc b) (table t))"
    unfolding t' using concat_update [OF bl] by simp
  show keys: "keys_of t' = insert k (keys_of t)"
    unfolding keys_of_def cu by (subst cs) auto
  have len: "csize t' = int (length (concat (table t')))"
    using inv unfolding cu by (subst (asm) table_inv_def, subst (asm) cs) (simp add: t')
  have dist: "distinct (map ckey (concat (table t')))"
  proof -
    from inv have "distinct (map ckey (concat (table t)))" by (simp add: table_inv_def)
    moreover from absent have "k \<notin> ckey ` set (concat (table t))" by (simp add: keys_of_def)
    ultimately show ?thesis unfolding cu by (subst (asm) (1 2) cs) auto
  qed
  have bucket: "\<forall>b' < length (table t'). \<forall>e \<in> set (table t' ! b').
        valid_key (ckey e) \<and> bucket_of (ckey e) (capacity t') = int b'"
  proof (intro allI impI ballI)
    fix b' e assume b': "b' < length (table t')" and e: "e \<in> set (table t' ! b')"
    show "valid_key (ckey e) \<and> bucket_of (ckey e) (capacity t') = int b'"
    proof (cases "b' = b")
      case True
      with e bl have "e \<in> set (table t ! b) \<or> e = ?e" by (auto simp: t')
      then show ?thesis
      proof
        assume "e \<in> set (table t ! b)"
        from inv_bucket [OF inv bl this] True show ?thesis by (simp add: t')
      next
        assume "e = ?e"
        with k bt b True show ?thesis by (simp add: t')
      qed
    next
      case False
      with e b' have "e \<in> set (table t ! b')" "b' < length (table t)" by (auto simp: t')
      from inv_bucket [OF inv this(2) this(1)] show ?thesis by (simp add: t')
    qed
  qed
  show "table_inv t'"
    unfolding table_inv_def
    using len dist bucket inv by (simp add: t' table_inv_def)
qed

lemma distinct_remove_mid:
  "distinct (map f (A @ (P @ x # D) @ Z)) \<Longrightarrow> distinct (map f (A @ (P @ D) @ Z))"
  by auto

lemma image_remove_mid:
  assumes "distinct (map f (A @ (P @ x # D) @ Z))"
  shows "f ` set (A @ (P @ D) @ Z) = f ` set (A @ (P @ x # D) @ Z) - {f x}"
proof -
  have "f ` set (A @ (P @ x # D) @ Z) = insert (f x) (f ` set (A @ (P @ D) @ Z))"
    by auto
  moreover have "f x \<notin> f ` set (A @ (P @ D) @ Z)"
    using assms by auto
  ultimately show ?thesis by simp
qed

lemma length_remove_mid:
  "int (length (A @ (P @ x # D) @ Z)) - 1 = int (length (A @ (P @ D) @ Z))"
  by simp

lemma inv_set_value:
  assumes inv: "table_inv t" and bl: "b < length (table t)" and pl: "p < length (table t ! b)"
    and t': "t' = t\<lparr>table := (table t)[b := (table t ! b)[p := (table t ! b ! p)\<lparr>cvalue := v\<rparr>]]\<rparr>"
  shows "table_inv t'" and "keys_of t' = keys_of t"
proof -
  let ?c = "table t ! b"
  let ?c' = "?c[p := (?c ! p)\<lparr>cvalue := v\<rparr>]"
  have mk: "map ckey ?c' = map ckey ?c"
    using pl by (simp add: map_update list_update_same_conv)
  have cs: "concat (table t) = concat (take b (table t)) @ ?c @ concat (drop (Suc b) (table t))"
    by (rule concat_split [OF bl])
  have cu: "concat (table t') = concat (take b (table t)) @ ?c' @ concat (drop (Suc b) (table t))"
    unfolding t' using concat_update [OF bl] by simp
  have mkc: "map ckey (concat (table t')) = map ckey (concat (table t))"
    unfolding cu by (subst cs) (simp add: mk)
  have "ckey ` set (concat (table t')) = ckey ` set (concat (table t))"
    using mkc by (metis list.set_map)
  then show keys: "keys_of t' = keys_of t" by (simp add: keys_of_def)
  have len: "length (concat (table t')) = length (concat (table t))"
    using mkc by (metis length_map)
  have bucket: "\<forall>b' < length (table t'). \<forall>e \<in> set (table t' ! b').
        valid_key (ckey e) \<and> bucket_of (ckey e) (capacity t') = int b'"
  proof (intro allI impI ballI)
    fix b' e assume b': "b' < length (table t')" and e: "e \<in> set (table t' ! b')"
    show "valid_key (ckey e) \<and> bucket_of (ckey e) (capacity t') = int b'"
    proof (cases "b' = b")
      case True
      with e bl have "e \<in> set ?c'" by (simp add: t')
      then have "ckey e \<in> set (map ckey ?c')" by simp
      then have "ckey e \<in> set (map ckey ?c)" by (simp only: mk)
      then obtain e0 where e0: "e0 \<in> set ?c" "ckey e0 = ckey e" by auto
      from inv_bucket [OF inv bl e0(1)] e0(2) True show ?thesis by (simp add: t')
    next
      case False
      with e b' have "e \<in> set (table t ! b')" "b' < length (table t)" by (auto simp: t')
      from inv_bucket [OF inv this(2) this(1)] show ?thesis by (simp add: t')
    qed
  qed
  show "table_inv t'"
    unfolding table_inv_def
    using len mkc bucket inv by (simp add: t' table_inv_def)
qed

lemma inv_unlink:
  assumes inv: "table_inv t" and bl: "b < length (table t)" and pl: "p < length (table t ! b)"
    and t': "t' = t\<lparr>table := (table t)[b := take p (table t ! b) @ drop (Suc p) (table t ! b)],
                     csize := csize t - 1\<rparr>"
  shows "table_inv t'" and "keys_of t' = keys_of t - {ckey (table t ! b ! p)}"
proof -
  let ?c = "table t ! b"
  let ?c' = "take p ?c @ drop (Suc p) ?c"
  have c: "?c = take p ?c @ ?c ! p # drop (Suc p) ?c"
    using pl by (rule id_take_nth_drop)
  have cs: "concat (table t) =
            concat (take b (table t)) @ (take p ?c @ ?c ! p # drop (Suc p) ?c) @
            concat (drop (Suc b) (table t))"
    using concat_split [OF bl] c by simp
  have cu: "concat (table t') = concat (take b (table t)) @ ?c' @ concat (drop (Suc b) (table t))"
    unfolding t' using concat_update [OF bl] by simp
  from inv have d: "distinct (map ckey (concat (table t)))" by (simp add: table_inv_def)
  from d have d': "distinct (map ckey (concat (take b (table t)) @
      (take p ?c @ ?c ! p # drop (Suc p) ?c) @ concat (drop (Suc b) (table t))))"
    by (subst (asm) cs)
  have dist: "distinct (map ckey (concat (table t')))"
    unfolding cu by (rule distinct_remove_mid [OF d'])
  show keys: "keys_of t' = keys_of t - {ckey (?c ! p)}"
    unfolding keys_of_def cu by (subst cs) (rule image_remove_mid [OF d'])
  from inv have "csize t = int (length (concat (table t)))" by (simp add: table_inv_def)
  then have "csize t - 1 = int (length (concat (table t')))"
    unfolding cu by (subst (asm) cs) (simp only: length_remove_mid)
  then have len: "csize t' = int (length (concat (table t')))" by (simp add: t')
  have bucket: "\<forall>b' < length (table t'). \<forall>e \<in> set (table t' ! b').
        valid_key (ckey e) \<and> bucket_of (ckey e) (capacity t') = int b'"
  proof (intro allI impI ballI)
    fix b' e assume b': "b' < length (table t')" and e: "e \<in> set (table t' ! b')"
    show "valid_key (ckey e) \<and> bucket_of (ckey e) (capacity t') = int b'"
    proof (cases "b' = b")
      case True
      with e bl have "e \<in> set ?c'" by (simp add: t')
      then have "e \<in> set ?c" by (auto dest: in_set_takeD in_set_dropD)
      from inv_bucket [OF inv bl this] True show ?thesis by (simp add: t')
    next
      case False
      with e b' have "e \<in> set (table t ! b')" "b' < length (table t)" by (auto simp: t')
      from inv_bucket [OF inv this(2) this(1)] show ?thesis by (simp add: t')
    qed
  qed
  show "table_inv t'"
    unfolding table_inv_def
    using len dist bucket inv by (simp add: t' table_inv_def)
qed

subsection \<open>Insertion without growth\<close>

lemma appended_fields [simp]:
  "capacity (appended t k v) = capacity t"
  "csize (appended t k v) = csize t + 1"
  "do_free (appended t k v) = do_free t"
  "base_capacity (appended t k v) = base_capacity t"
  "free_value (appended t k v) = free_value t"
  "value_compare (appended t k v) = value_compare t"
  by (simp_all add: appended_def)

lemma appended_inv:
  assumes "table_inv t" and "valid_key k" and "k \<notin> keys_of t"
  shows "table_inv (appended t k v)" and "keys_of (appended t k v) = insert k (keys_of t)"
  using inv_append [OF assms refl, of "appended t k v" v]
  by (simp_all add: appended_def)

lemma carrier_create_available:
  "allocs g = [] \<Longrightarrow>
   carrier_create k v g =
     Done (Some \<lparr>ckey = take (min MAX_KEY_SIZE (length k + 1)) k, cvalue = v\<rparr>)
          (g\<lparr>croquette_error := D_No_Error\<rparr>)"
  by (simp add: carrier_create_def Let_def)

lemma rehash_insert_unfold:
  assumes "croquette g = Some t"
  shows "\<exists>g1. croquette g1 = Some t \<and> allocs g1 = allocs g \<and>
     rehash_with pf D_Insert g =
     (if grows (csize t) (capacity t)
      then obind (pf (c_int (push_bit 1 (capacity t))) g1)
             (\<lambda>success g2. if success = D_Error then Done D_Error g2 else Done D_Success g2)
      else Done D_Success g1)"
  using assms
  by (intro exI [of _ "g\<lparr>croquette_error := D_No_Error\<rparr>"])
     (simp add: rehash_with_def Let_def grows_def)

lemma rehash_remove_unfold:
  assumes "croquette g = Some t"
  shows "\<exists>g1. croquette g1 = Some t \<and> allocs g1 = allocs g \<and>
     rehash_with pf D_Remove g =
     (if csize t < drop_bit 1 (capacity t)
      then obind (pf (drop_bit 1 (capacity t)) g1)
             (\<lambda>success g2. if success = D_Error then Done D_Error g2 else Done D_Success g2)
      else Done D_Success g1)"
  using assms
  by (intro exI [of _ "g\<lparr>croquette_error := D_No_Error\<rparr>"])
     (simp add: rehash_with_def Let_def)

lemma put_absent_unfold:
  assumes g: "croquette g = Some t" and inv: "table_inv t" and al: "allocs g = []"
    and k: "valid_key k" and absent: "k \<notin> keys_of t"
  shows "\<exists>g4. croquette g4 = Some (appended t k v) \<and> allocs g4 = [] \<and>
           put_with rh (Some k) v g =
           obind (rh D_Insert g4)
             (\<lambda>r g5. if r = D_Error then Done D_Error g5 else Done D_Success g5)"
proof -
  let ?g1 = "g\<lparr>croquette_error := D_No_Error\<rparr>"
  let ?e = "\<lparr>ckey = k, cvalue = v\<rparr>"
  note bt = bucket_in_table [OF inv k]
  note vk = valid_key_nonempty [OF k]
  have g1: "croquette ?g1 = Some t" "allocs ?g1 = []" using g al by simp_all
  have f: "croquette_find (Some k) ?g1 = Done None ?g1"
    using find_absent [OF g1(1) inv k absent] by simp
  have tk: "take (min MAX_KEY_SIZE (length k + 1)) k = k" using vk by simp
  have cc: "carrier_create k v ?g1 = Done (Some ?e) ?g1"
    using carrier_create_available [OF g1(2), of k v] tk by simp
  have cap0: "capacity t \<noteq> 0" using inv_capacity [OF inv] by simp
  have gi: "get_index (Some k) ?g1 = Done (bucket_of k (capacity t)) ?g1"
    using get_index_Some [OF g1(1) _ cap0, of k] vk by simp
  obtain g4 where ii: "insert_at_index (bucket_of k (capacity t)) ?e ?g1 = Done D_Success g4"
    and c4: "croquette g4 = Some (appended t k v)" and al4: "allocs g4 = []"
    using g1 bt by (simp add: insert_at_index_def Let_def appended_def)
  have nover: "\<not> MAX_KEY_SIZE < length k + 1" using vk by simp
  have nerr: "bucket_of k (capacity t) \<noteq> D_Error" using bt by simp
  have ne: "k \<noteq> []" using vk by simp
  have "put_with rh (Some k) v g =
           obind (rh D_Insert g4)
             (\<lambda>r g5. if r = D_Error then Done D_Error g5 else Done D_Success g5)"
    unfolding put_with_def Let_def set_error_eq
    by (simp only: g1 option.case f obind.simps cc gi ii nover nerr if_False HOL.simp_thms
        length_0_conv ne carrier_s.select_convs)
  with c4 al4 show ?thesis by blast
qed

lemma settlesI:
  "r = Done ret g' \<Longrightarrow> croquette g' = Some t' \<Longrightarrow> allocs g' = [] \<Longrightarrow> P t' \<Longrightarrow> settles r ret P"
  by (auto simp: settles_def)

lemma settlesE:
  assumes "settles r ret P"
  obtains g' t' where "r = Done ret g'" "croquette g' = Some t'" "allocs g' = []" "P t'"
  using assms by (auto simp: settles_def)

lemma settles_weaken: "settles r ret P \<Longrightarrow> (\<And>t. P t \<Longrightarrow> Q t) \<Longrightarrow> settles r ret Q"
  by (auto simp: settles_def)

lemma same_config_refl [simp]: "same_config t t"
  by (simp add: same_config_def)

lemma same_config_trans: "same_config t t1 \<Longrightarrow> same_config t1 t2 \<Longrightarrow> same_config t t2"
  by (simp add: same_config_def)

lemma same_config_appended [simp]: "same_config t (appended t k v)"
  by (simp add: same_config_def)

lemma grows_mono: "\<not> grows s c \<Longrightarrow> s' \<le> s \<Longrightarrow> \<not> grows s' c"
  by (auto simp: grows_def)

lemma put_absent_nogrow:
  assumes g: "croquette g = Some t" and inv: "table_inv t" and al: "allocs g = []"
    and k: "valid_key k" and absent: "k \<notin> keys_of t"
    and ng: "\<not> grows (csize t + 1) (capacity t)"
  shows "settles (put_with (rehash_with pf) (Some k) v g) D_Success (\<lambda>t'. t' = appended t k v)"
proof -
  from put_absent_unfold [OF g inv al k absent, of v "rehash_with pf"] obtain g4
    where c4: "croquette g4 = Some (appended t k v)" and al4: "allocs g4 = []"
      and put: "put_with (rehash_with pf) (Some k) v g =
           obind (rehash_with pf D_Insert g4)
             (\<lambda>r g5. if r = D_Error then Done D_Error g5 else Done D_Success g5)"
    by blast
  from rehash_insert_unfold [OF c4, of pf] ng obtain g5
    where c5: "croquette g5 = Some (appended t k v)" and al5: "allocs g5 = allocs g4"
      and rh: "rehash_with pf D_Insert g4 = Done D_Success g5"
    by auto
  have "put_with (rehash_with pf) (Some k) v g = Done D_Success g5"
    unfolding put rh by (simp add: D_Error_def D_Success_def)
  then show ?thesis using c5 al5 al4 by (auto intro!: settlesI)
qed

lemma free_entry_ok:
  assumes "croquette g = Some t" and "table_inv t"
  shows "\<exists>g'. free_entry e g = Done () g' \<and> croquette g' = Some t \<and> allocs g' = allocs g"
proof (cases "do_free t = D_Do_Free")
  case True
  with assms(2) obtain f where "free_value t = Some f" by (auto simp: table_inv_def)
  with True assms(1) show ?thesis by (simp add: free_entry_def)
next
  case False
  with assms(1) show ?thesis by (simp add: free_entry_def)
qed

lemma rehash_chain_nogrow:
  assumes "croquette g = Some t" and "table_inv t" and "allocs g = []"
    and "distinct (map ckey es)" and "\<forall>e \<in> set es. valid_key (ckey e)"
    and "ckey ` set es \<inter> keys_of t = {}"
    and "\<not> grows (csize t + int (length es)) (capacity t)"
  shows "settles (rehash_chain (put_with (rehash_with pf)) es g) ()
           (\<lambda>t'. table_inv t' \<and> keys_of t' = keys_of t \<union> ckey ` set es \<and>
                 csize t' = csize t + int (length es) \<and> capacity t' = capacity t \<and>
                 same_config t t')"
  using assms
proof (induction es arbitrary: g t)
  case Nil
  then show ?case by (auto intro!: settlesI)
next
  case (Cons e es)
  let ?t1 = "appended t (ckey e) (cvalue e)"
  from Cons.prems have k: "valid_key (ckey e)" and absent: "ckey e \<notin> keys_of t" by auto
  from Cons.prems(7) have ng: "\<not> grows (csize t + 1) (capacity t)"
    by (rule grows_mono) simp
  from put_absent_nogrow [OF Cons.prems(1-3) k absent ng, of pf "cvalue e"] obtain g1
    where put: "put_with (rehash_with pf) (Some (ckey e)) (cvalue e) g = Done D_Success g1"
      and c1: "croquette g1 = Some ?t1" and al1: "allocs g1 = []"
    by (auto elim!: settlesE)
  have inv1: "table_inv ?t1" and keys1: "keys_of ?t1 = insert (ckey e) (keys_of t)"
    using appended_inv [OF Cons.prems(2) k absent] by simp_all
  from free_entry_ok [OF c1 inv1, of "e\<lparr>cvalue := None\<rparr>"] obtain g2
    where fe: "free_entry (e\<lparr>cvalue := None\<rparr>) g1 = Done () g2"
      and c2: "croquette g2 = Some ?t1" and al2': "allocs g2 = allocs g1" by blast
  have al2: "allocs g2 = []" using al2' al1 by simp
  have d: "distinct (map ckey es)" and v: "\<forall>e \<in> set es. valid_key (ckey e)"
    using Cons.prems by simp_all
  have dj: "ckey ` set es \<inter> keys_of ?t1 = {}"
    using Cons.prems(4,6) keys1 by auto
  have eq: "csize t + 1 + int (length es) = csize t + int (length (e # es))" by simp
  have ng2: "\<not> grows (csize ?t1 + int (length es)) (capacity ?t1)"
    unfolding appended_fields eq by (rule Cons.prems(7))
  have step: "rehash_chain (put_with (rehash_with pf)) (e # es) g =
              rehash_chain (put_with (rehash_with pf)) es g2"
    by (simp add: put fe)
  have "settles (rehash_chain (put_with (rehash_with pf)) es g2) ()
           (\<lambda>t'. table_inv t' \<and> keys_of t' = keys_of ?t1 \<union> ckey ` set es \<and>
                 csize t' = csize ?t1 + int (length es) \<and> capacity t' = capacity ?t1 \<and>
                 same_config ?t1 t')"
    by (rule Cons.IH [OF c2 inv1 al2 d v dj ng2])
  then show ?case
    unfolding step
    by (rule settles_weaken) (auto simp: keys1 same_config_def)
qed

lemma emptied_fields [simp]:
  "capacity (emptied t nc) = nc"
  "csize (emptied t nc) = 0"
  "table (emptied t nc) = replicate (nat nc) []"
  "do_free (emptied t nc) = do_free t"
  "base_capacity (emptied t nc) = base_capacity t"
  "free_value (emptied t nc) = free_value t"
  "value_compare (emptied t nc) = value_compare t"
  by (simp_all add: emptied_def)

lemma emptied_inv:
  assumes "table_inv t" and "1 \<le> nc"
  shows "table_inv (emptied t nc)" and "keys_of (emptied t nc) = {}"
  using inv_fresh [OF assms] by (simp_all add: emptied_def)

lemma same_config_emptied [simp]: "same_config t (emptied t nc)"
  by (simp add: same_config_def)

lemma perform_rehash_unfold:
  assumes g: "croquette g = Some t" and inv: "table_inv t" and al: "allocs g = []"
    and nc: "1 \<le> nc"
  shows "\<exists>g0. croquette g0 = Some (emptied t nc) \<and> allocs g0 = [] \<and>
           perform_rehash_with put nc g =
           obind (rehash_chain put (concat (table t)) g0) (\<lambda>_ g3. Done D_Success g3)"
proof -
  let ?g = "g\<lparr>croquette_error := D_No_Error\<rparr>"
  have c: "croquette ?g = Some t" using g by simp
  have ca: "calloc ?g = (True, ?g)" using al by simp
  have l: "length (table t) = nat (capacity t)" using inv_capacity [OF inv] by simp
  have tk: "take (nat (capacity t)) (table t) = table t" using l by simp
  have nn: "\<not> nc \<le> 0" using nc by simp
  have nl: "\<not> length (table t) < nat (capacity t)" using l by simp
  show ?thesis
    unfolding perform_rehash_with_def Let_def set_error_eq
    using al
    by (intro exI [of _ "?g\<lparr>croquette := Some (emptied t nc)\<rparr>"])
       (simp add: c nn ca tk nl emptied_def)
qed

lemma settles_then_success:
  "settles m () P \<Longrightarrow> settles (obind m (\<lambda>_ g3. Done D_Success g3)) D_Success P"
  by (auto simp: settles_def)

lemma entries_of_table:
  assumes "table_inv t"
  shows "distinct (map ckey (concat (table t)))"
    and "\<forall>e \<in> set (concat (table t)). valid_key (ckey e)"
    and "ckey ` set (concat (table t)) = keys_of t"
    and "int (length (concat (table t))) = csize t"
  using assms inv_valid [OF assms] by (simp_all add: table_inv_def keys_of_def)

lemma perform_rehash_nogrow:
  assumes g: "croquette g = Some t" and inv: "table_inv t" and al: "allocs g = []"
    and nc: "1 \<le> nc" and ng: "\<not> grows (csize t) nc"
  shows "settles (perform_rehash_with (put_with (rehash_with pf)) nc g) D_Success
           (\<lambda>t'. table_inv t' \<and> keys_of t' = keys_of t \<and> csize t' = csize t \<and>
                 capacity t' = nc \<and> same_config t t')"
proof -
  let ?t0 = "emptied t nc"
  from perform_rehash_unfold [OF g inv al nc, of "put_with (rehash_with pf)"] obtain g0
    where c0: "croquette g0 = Some ?t0" and al0: "allocs g0 = []"
      and unf: "perform_rehash_with (put_with (rehash_with pf)) nc g =
           obind (rehash_chain (put_with (rehash_with pf)) (concat (table t)) g0)
             (\<lambda>_ g3. Done D_Success g3)"
    by blast
  note es = entries_of_table [OF inv]
  have inv0: "table_inv ?t0" and keys0: "keys_of ?t0 = {}"
    using emptied_inv [OF inv nc] by simp_all
  have dj: "ckey ` set (concat (table t)) \<inter> keys_of ?t0 = {}" using keys0 by simp
  have ng0: "\<not> grows (csize ?t0 + int (length (concat (table t)))) (capacity ?t0)"
    using ng es(4) by simp
  have "settles (rehash_chain (put_with (rehash_with pf)) (concat (table t)) g0) ()
           (\<lambda>t'. table_inv t' \<and> keys_of t' = keys_of ?t0 \<union> ckey ` set (concat (table t)) \<and>
                 csize t' = csize ?t0 + int (length (concat (table t))) \<and>
                 capacity t' = capacity ?t0 \<and> same_config ?t0 t')"
    by (rule rehash_chain_nogrow [OF c0 inv0 al0 es(1) es(2) dj ng0])
  then have "settles (rehash_chain (put_with (rehash_with pf)) (concat (table t)) g0) ()
           (\<lambda>t'. table_inv t' \<and> keys_of t' = keys_of t \<and> csize t' = csize t \<and>
                 capacity t' = nc \<and> same_config t t')"
  proof (rule settles_weaken)
    fix t' assume "table_inv t' \<and> keys_of t' = keys_of ?t0 \<union> ckey ` set (concat (table t)) \<and>
                 csize t' = csize ?t0 + int (length (concat (table t))) \<and>
                 capacity t' = capacity ?t0 \<and> same_config ?t0 t'"
    then show "table_inv t' \<and> keys_of t' = keys_of t \<and> csize t' = csize t \<and>
                 capacity t' = nc \<and> same_config t t'"
      unfolding keys0 es(3) es(4) by (simp add: same_config_def)
  qed
  then show ?thesis
    unfolding unf by (rule settles_then_success)
qed

subsection \<open>Insertion with growth, and rehashing in general\<close>

lemma grows_after_doubling:
  "\<not> grows s c \<Longrightarrow> 1 \<le> c \<Longrightarrow> \<not> grows (s + 1) (push_bit 1 c)"
  by (simp add: grows_def drop_bit_eq_div push_bit_eq_mult) linarith

text \<open>
  A table that is about to grow with at most \<open>3 \<cdot> 2\<^sup>2\<^sup>8\<close> nodes has less than \<open>2\<^sup>3\<^sup>0\<close>
  buckets, so the doubled capacity is in the range of an \<^verbatim>\<open>int\<close>.
\<close>

lemma doubling_fits:
  assumes "grows s c" and "s \<le> 3 * 2 ^ 28" and "1 \<le> c"
  shows "c_int (push_bit 1 c) = push_bit 1 c"
proof -
  have "c < 2 ^ 30"
  proof (rule ccontr)
    assume "\<not> c < 2 ^ 30"
    then have c: "2 ^ 30 \<le> c" by simp
    then have "2 ^ 29 \<le> c div 2" "2 ^ 28 \<le> c div 4" by simp_all
    with assms(1,2) c show False by (simp add: grows_def drop_bit_eq_div)
  qed
  with assms(3) show ?thesis by (simp add: c_int_def push_bit_eq_mult)
qed

text \<open>
  From \<open>2\<^sup>3\<^sup>0\<close> buckets on the doubled capacity is negative as an \<^verbatim>\<open>int\<close>, and a rehash
  that is due fails with \<^verbatim>\<open>D_Invalid_Capacity\<close>, leaving the table as it was.
\<close>

lemma doubling_overflows:
  assumes "2 ^ 30 \<le> c" and "c < 2 ^ 31"
  shows "c_int (push_bit 1 c) = 2 * c - 2 ^ 32"
proof -
  have "(2 * c + 2 ^ 31) mod 2 ^ 32 = (2 * c + 2 ^ 31 - 2 ^ 32) mod 2 ^ 32"
    by (metis minus_mod_self2)
  also have "\<dots> = 2 * c + 2 ^ 31 - 2 ^ 32"
    using assms by (intro mod_pos_pos_trivial) simp_all
  finally show ?thesis by (simp add: c_int_def push_bit_eq_mult mult.commute)
qed

lemma rehash_refuses_overflow:
  assumes g: "croquette g = Some t" and c: "2 ^ 30 \<le> capacity t" "capacity t < 2 ^ 31"
    and gr: "grows (csize t) (capacity t)"
  shows "rehash (Suc n) D_Insert g = Done D_Error (g\<lparr>croquette_error := D_Invalid_Capacity\<rparr>)"
proof -
  have neg: "c_int (capacity t * 2) \<le> 0"
    using doubling_overflows [OF c] c by (simp add: push_bit_eq_mult mult.commute)
  show ?thesis
    using g gr neg
    by (simp add: rehash_def rehash_with_def perform_rehash.simps perform_rehash_with_def
        Let_def grows_def)
qed

lemma settles_then_check:
  "settles m D_Success P \<Longrightarrow>
   settles (obind m (\<lambda>success g2. if success = D_Error then Done D_Error g2 else Done D_Success g2))
     D_Success P"
  by (auto simp: settles_def D_Success_def D_Error_def)

lemma put_absent:
  assumes g: "croquette g = Some t" and inv: "table_inv t" and al: "allocs g = []"
    and ng: "\<not> grows (csize t) (capacity t)"
    and k: "valid_key k" and absent: "k \<notin> keys_of t"
    and sm: "csize t < 3 * 2 ^ 28"
  shows "settles (croquette_put (Suc n) (Some k) v g) D_Success
           (\<lambda>t'. table_inv t' \<and> \<not> grows (csize t') (capacity t') \<and>
                 keys_of t' = insert k (keys_of t) \<and> csize t' = csize t + 1 \<and>
                 capacity t' = (if grows (csize t + 1) (capacity t)
                                then push_bit 1 (capacity t) else capacity t) \<and>
                 same_config t t')"
proof -
  let ?t1 = "appended t k v"
  let ?rh = "rehash_with (perform_rehash (Suc n))"
  have inv1: "table_inv ?t1" and keys1: "keys_of ?t1 = insert k (keys_of t)"
    using appended_inv [OF inv k absent] by simp_all
  show ?thesis
  proof (cases "grows (csize t + 1) (capacity t)")
    case False
    have "settles (put_with ?rh (Some k) v g) D_Success (\<lambda>t'. t' = ?t1)"
      by (rule put_absent_nogrow [OF g inv al k absent False])
    then show ?thesis
      unfolding croquette_put_def rehash_def
      by (rule settles_weaken) (use False inv1 keys1 in simp)
  next
    case True
    let ?nc = "push_bit 1 (capacity t)"
    let ?Q = "\<lambda>t'. table_inv t' \<and> \<not> grows (csize t') (capacity t') \<and>
                 keys_of t' = insert k (keys_of t) \<and> csize t' = csize t + 1 \<and>
                 capacity t' = ?nc \<and> same_config t t'"
    from put_absent_unfold [OF g inv al k absent, of v ?rh] obtain g4
      where c4: "croquette g4 = Some ?t1" and al4: "allocs g4 = []"
        and put: "put_with ?rh (Some k) v g =
             obind (?rh D_Insert g4)
               (\<lambda>r g5. if r = D_Error then Done D_Error g5 else Done D_Success g5)"
      by blast
    have fits: "c_int (capacity t * 2) = capacity t * 2"
      using doubling_fits [OF True] sm inv_capacity [OF inv] by simp
    from rehash_insert_unfold [OF c4, of "perform_rehash (Suc n)"] True obtain g5
      where c5: "croquette g5 = Some ?t1" and al5: "allocs g5 = allocs g4"
        and rh: "?rh D_Insert g4 =
          obind (perform_rehash (Suc n) ?nc g5)
            (\<lambda>success g2. if success = D_Error then Done D_Error g2 else Done D_Success g2)"
      by (auto simp: fits)
    have al5': "allocs g5 = []" using al5 al4 by simp
    have nc: "1 \<le> ?nc" using inv_capacity [OF inv] by (simp add: push_bit_eq_mult)
    have ng1: "\<not> grows (csize ?t1) ?nc"
      using grows_after_doubling [OF ng] inv_capacity [OF inv] by simp
    have "settles (perform_rehash_with (put_with (rehash_with (perform_rehash n))) ?nc g5)
            D_Success
            (\<lambda>t'. table_inv t' \<and> keys_of t' = keys_of ?t1 \<and> csize t' = csize ?t1 \<and>
                  capacity t' = ?nc \<and> same_config ?t1 t')"
      by (rule perform_rehash_nogrow [OF c5 inv1 al5' nc ng1])
    then have "settles (perform_rehash (Suc n) ?nc g5) D_Success ?Q"
      unfolding perform_rehash.simps
    proof (rule settles_weaken)
      fix t' assume "table_inv t' \<and> keys_of t' = keys_of ?t1 \<and> csize t' = csize ?t1 \<and>
                  capacity t' = ?nc \<and> same_config ?t1 t'"
      then show "?Q t'"
        using ng1 keys1 by (simp add: same_config_def)
    qed
    then have "settles (?rh D_Insert g4) D_Success ?Q"
      unfolding rh by (rule settles_then_check)
    then have "settles (put_with ?rh (Some k) v g) D_Success ?Q"
      unfolding put by (rule settles_then_check)
    then show ?thesis
      unfolding croquette_put_def rehash_def
      by (rule settles_weaken) (use True in auto)
  qed
qed

lemma entry_at_Some:
  "b < length (table t) \<Longrightarrow> p < length (table t ! b) \<Longrightarrow> entry_at t (b, p) = Some (table t ! b ! p)"
  by (simp add: entry_at_def)

lemma put_present:
  assumes g: "croquette g = Some t" and inv: "table_inv t" and al: "allocs g = []"
    and k: "valid_key k" and present: "k \<in> keys_of t" and fv: "free_value t \<noteq> None"
  shows "settles (put_with rh (Some k) v g) D_Success
           (\<lambda>t'. table_inv t' \<and> keys_of t' = keys_of t \<and> csize t' = csize t \<and>
                 capacity t' = capacity t \<and> same_config t t')"
proof -
  let ?g1 = "g\<lparr>croquette_error := D_No_Error\<rparr>"
  let ?b = "nat (bucket_of k (capacity t))"
  note bt = bucket_in_table [OF inv k]
  have g1: "croquette ?g1 = Some t" "allocs ?g1 = []" using g al by simp_all
  from find_present [OF g1(1) inv k present] obtain p
    where f: "croquette_find (Some k) ?g1 = Done (Some (?b, p)) ?g1"
      and pl: "p < length (table t ! ?b)" by auto
  have bl: "?b < length (table t)" using bt by simp
  have ea: "entry_at t (?b, p) = Some (table t ! ?b ! p)" by (rule entry_at_Some [OF bl pl])
  from inv obtain cmp where cmp: "value_compare t = Some cmp" by (auto simp: table_inv_def)
  from fv obtain fr where fr: "free_value t = Some fr" by auto
  have ne: "k \<noteq> []" using valid_key_nonempty [OF k] by simp
  let ?t' = "t\<lparr>table := (table t)[?b := (table t ! ?b)[p := (table t ! ?b ! p)\<lparr>cvalue := v\<rparr>]]\<rparr>"
  have unf: "put_with rh (Some k) v g =
        (if cmp (cvalue (table t ! ?b ! p)) v \<noteq> 0
         then Done D_Success (?g1\<lparr>world := fr (cvalue (table t ! ?b ! p)) (world ?g1),
                                  croquette := Some ?t'\<rparr>)
         else Done D_Success ?g1)"
    unfolding put_with_def Let_def set_error_eq
    by (simp only: g1 option.case f obind.simps ne length_0_conv if_False prod.case
        deref_Some [OF g1(1)] ea cmp fr)
  show ?thesis
  proof (cases "cmp (cvalue (table t ! ?b ! p)) v \<noteq> 0")
    case True
    have "table_inv ?t'" and "keys_of ?t' = keys_of t"
      using inv_set_value [OF inv bl pl refl, of v] by simp_all
    then show ?thesis
      unfolding unf using True al
      by (intro settlesI [where t' = ?t' and
            g' = "?g1\<lparr>world := fr (cvalue (table t ! ?b ! p)) (world ?g1), croquette := Some ?t'\<rparr>"])
         (simp_all add: same_config_def)
  next
    case False
    then show ?thesis
      unfolding unf using g al inv
      by (intro settlesI [where t' = t and g' = ?g1]) simp_all
  qed
qed

lemma rehash_chain_fuel:
  assumes "croquette g = Some t" and "table_inv t" and "allocs g = []"
    and "\<not> grows (csize t) (capacity t)"
    and "distinct (map ckey es)" and "\<forall>e \<in> set es. valid_key (ckey e)"
    and "ckey ` set es \<inter> keys_of t = {}"
    and "csize t + int (length es) \<le> 3 * 2 ^ 28"
  shows "settles (rehash_chain (croquette_put (Suc n)) es g) ()
           (\<lambda>t'. table_inv t' \<and> \<not> grows (csize t') (capacity t') \<and>
                 keys_of t' = keys_of t \<union> ckey ` set es \<and>
                 csize t' = csize t + int (length es) \<and> capacity t \<le> capacity t' \<and>
                 same_config t t')"
  using assms
proof (induction es arbitrary: g t)
  case Nil
  then show ?case by (auto intro!: settlesI)
next
  case (Cons e es)
  from Cons.prems have k: "valid_key (ckey e)" and absent: "ckey e \<notin> keys_of t" by auto
  from Cons.prems(8) have sm: "csize t < 3 * 2 ^ 28" by simp
  from put_absent [OF Cons.prems(1-4) k absent sm, of n "cvalue e"] obtain g1 t1
    where put: "croquette_put (Suc n) (Some (ckey e)) (cvalue e) g = Done D_Success g1"
      and c1: "croquette g1 = Some t1" and al1: "allocs g1 = []"
      and inv1: "table_inv t1" and ng1: "\<not> grows (csize t1) (capacity t1)"
      and keys1: "keys_of t1 = insert (ckey e) (keys_of t)"
      and sz1: "csize t1 = csize t + 1"
      and cap1: "capacity t1 = (if grows (csize t + 1) (capacity t)
                                then push_bit 1 (capacity t) else capacity t)"
      and cfg1: "same_config t t1"
    by (auto elim!: settlesE)
  have cap1': "capacity t \<le> capacity t1"
    using cap1 inv_capacity [OF Cons.prems(2)] by (simp add: push_bit_eq_mult)
  from free_entry_ok [OF c1 inv1, of "e\<lparr>cvalue := None\<rparr>"] obtain g2
    where fe: "free_entry (e\<lparr>cvalue := None\<rparr>) g1 = Done () g2"
      and c2: "croquette g2 = Some t1" and al2': "allocs g2 = allocs g1" by blast
  have al2: "allocs g2 = []" using al2' al1 by simp
  have d: "distinct (map ckey es)" and v: "\<forall>e \<in> set es. valid_key (ckey e)"
    using Cons.prems by simp_all
  have dj: "ckey ` set es \<inter> keys_of t1 = {}"
    using Cons.prems(5,7) keys1 by auto
  have sm1: "csize t1 + int (length es) \<le> 3 * 2 ^ 28"
    using Cons.prems(8) sz1 by simp
  have step: "rehash_chain (croquette_put (Suc n)) (e # es) g =
              rehash_chain (croquette_put (Suc n)) es g2"
    by (simp add: put fe)
  have "settles (rehash_chain (croquette_put (Suc n)) es g2) ()
           (\<lambda>t'. table_inv t' \<and> \<not> grows (csize t') (capacity t') \<and>
                 keys_of t' = keys_of t1 \<union> ckey ` set es \<and>
                 csize t' = csize t1 + int (length es) \<and> capacity t1 \<le> capacity t' \<and>
                 same_config t1 t')"
    by (rule Cons.IH [OF c2 inv1 al2 ng1 d v dj sm1])
  then show ?case
    unfolding step
    by (rule settles_weaken) (use keys1 sz1 cap1' cfg1 in \<open>auto simp: same_config_def\<close>)
qed

lemma not_grows_empty: "1 \<le> nc \<Longrightarrow> \<not> grows 0 nc"
  by (simp add: grows_def drop_bit_eq_div)

lemma perform_rehash_Suc_Suc:
  "perform_rehash (Suc (Suc n)) = perform_rehash_with (croquette_put (Suc n))"
  by (simp add: perform_rehash.simps croquette_put_def rehash_def)

lemma perform_rehash_fuel:
  assumes g: "croquette g = Some t" and inv: "table_inv t" and al: "allocs g = []"
    and nc: "1 \<le> nc" and sm: "csize t \<le> 3 * 2 ^ 28"
  shows "settles (perform_rehash (Suc (Suc n)) nc g) D_Success
           (\<lambda>t'. table_inv t' \<and> \<not> grows (csize t') (capacity t') \<and>
                 keys_of t' = keys_of t \<and> csize t' = csize t \<and> nc \<le> capacity t' \<and>
                 same_config t t')"
proof -
  let ?t0 = "emptied t nc"
  from perform_rehash_unfold [OF g inv al nc, of "croquette_put (Suc n)"] obtain g0
    where c0: "croquette g0 = Some ?t0" and al0: "allocs g0 = []"
      and unf: "perform_rehash_with (croquette_put (Suc n)) nc g =
           obind (rehash_chain (croquette_put (Suc n)) (concat (table t)) g0)
             (\<lambda>_ g3. Done D_Success g3)"
    by blast
  note es = entries_of_table [OF inv]
  have inv0: "table_inv ?t0" and keys0: "keys_of ?t0 = {}"
    using emptied_inv [OF inv nc] by simp_all
  have dj: "ckey ` set (concat (table t)) \<inter> keys_of ?t0 = {}" using keys0 by simp
  have ng0: "\<not> grows (csize ?t0) (capacity ?t0)"
    using not_grows_empty [OF nc] by simp
  have sm0: "csize ?t0 + int (length (concat (table t))) \<le> 3 * 2 ^ 28"
    using sm es(4) by simp
  have "settles (rehash_chain (croquette_put (Suc n)) (concat (table t)) g0) ()
           (\<lambda>t'. table_inv t' \<and> \<not> grows (csize t') (capacity t') \<and>
                 keys_of t' = keys_of ?t0 \<union> ckey ` set (concat (table t)) \<and>
                 csize t' = csize ?t0 + int (length (concat (table t))) \<and>
                 capacity ?t0 \<le> capacity t' \<and> same_config ?t0 t')"
    by (rule rehash_chain_fuel [OF c0 inv0 al0 ng0 es(1) es(2) dj sm0])
  then have "settles (rehash_chain (croquette_put (Suc n)) (concat (table t)) g0) ()
           (\<lambda>t'. table_inv t' \<and> \<not> grows (csize t') (capacity t') \<and>
                 keys_of t' = keys_of t \<and> csize t' = csize t \<and> nc \<le> capacity t' \<and>
                 same_config t t')"
  proof (rule settles_weaken)
    fix t' assume "table_inv t' \<and> \<not> grows (csize t') (capacity t') \<and>
                 keys_of t' = keys_of ?t0 \<union> ckey ` set (concat (table t)) \<and>
                 csize t' = csize ?t0 + int (length (concat (table t))) \<and>
                 capacity ?t0 \<le> capacity t' \<and> same_config ?t0 t'"
    then show "table_inv t' \<and> \<not> grows (csize t') (capacity t') \<and>
                 keys_of t' = keys_of t \<and> csize t' = csize t \<and> nc \<le> capacity t' \<and>
                 same_config t t'"
      unfolding keys0 es(3) es(4) by (auto simp: same_config_def)
  qed
  then show ?thesis
    unfolding perform_rehash_Suc_Suc unf by (rule settles_then_success)
qed

subsection \<open>Removal and clearing\<close>

lemma free_entry_cfg:
  assumes "croquette g = Some t" and "do_free t = D_Do_Free \<longrightarrow> free_value t \<noteq> None"
  shows "\<exists>g'. free_entry e g = Done () g' \<and> croquette g' = Some t \<and> allocs g' = allocs g"
proof (cases "do_free t = D_Do_Free")
  case True
  with assms(2) obtain f where "free_value t = Some f" by auto
  with True assms(1) show ?thesis by (simp add: free_entry_def)
next
  case False
  with assms(1) show ?thesis by (simp add: free_entry_def)
qed

lemma remove_entry_ok:
  assumes g: "croquette g = Some t" and inv: "table_inv t"
    and bl: "b < length (table t)" and pl: "p < length (table t ! b)"
  shows "\<exists>g'. remove_entry (Some (b, p)) g = Done D_Success g' \<and>
           croquette g' =
             Some (t\<lparr>table := (table t)[b := take p (table t ! b) @ drop (Suc p) (table t ! b)],
                     csize := csize t - 1\<rparr>) \<and>
           allocs g' = allocs g"
proof -
  let ?g1 = "g\<lparr>croquette_error := D_No_Error\<rparr>"
  let ?e = "table t ! b ! p"
  let ?t2 = "t\<lparr>table := (table t)[b := take p (table t ! b) @ drop (Suc p) (table t ! b)]\<rparr>"
  let ?g2 = "?g1\<lparr>croquette := Some ?t2\<rparr>"
  have g1: "croquette ?g1 = Some t" using g by simp
  have ea: "entry_at t (b, p) = Some ?e" by (rule entry_at_Some [OF bl pl])
  have "?e \<in> set (table t ! b)" using pl by simp
  from inv_bucket [OF inv bl this]
  have vk: "valid_key (ckey ?e)" and bk: "bucket_of (ckey ?e) (capacity t) = int b" by simp_all
  have cap0: "capacity t \<noteq> 0" using inv_capacity [OF inv] by simp
  have gi: "get_index (Some (ckey ?e)) ?g1 = Done (int b) ?g1"
    using get_index_Some [OF g1 _ cap0, of "ckey ?e"] valid_key_nonempty [OF vk] bk by simp
  have c1: "\<not> (p = 0 \<and> (int b < 0 \<or> int (length (table t)) \<le> int b))" using bl by simp
  have c2: "\<not> (p = 0 \<and> nat (int b) \<noteq> b)" by simp
  have cfg: "do_free ?t2 = D_Do_Free \<longrightarrow> free_value ?t2 \<noteq> None"
    using inv by (simp add: table_inv_def)
  have cg2: "croquette ?g2 = Some ?t2" by simp
  from free_entry_cfg [OF cg2 cfg, of ?e] obtain g3
    where fe: "free_entry ?e ?g2 = Done () g3" and c3: "croquette g3 = Some ?t2"
      and al3: "allocs g3 = allocs ?g2" by blast
  have "remove_entry (Some (b, p)) g =
          Done D_Success (g3\<lparr>croquette := Some (?t2\<lparr>csize := csize ?t2 - 1\<rparr>)\<rparr>)"
    unfolding remove_entry_def Let_def set_error_eq
    by (simp only: option.case prod.case deref_Some [OF g1] obind.simps ea gi c1 c2 if_False fe
        deref_Some [OF c3])
  then show ?thesis using al3 by (intro exI [of _ "g3\<lparr>croquette := Some (?t2\<lparr>csize := csize ?t2 - 1\<rparr>)\<rparr>"]) simp
qed

lemma remove_present:
  assumes g: "croquette g = Some t" and inv: "table_inv t" and al: "allocs g = []"
    and ng: "\<not> grows (csize t) (capacity t)"
    and k: "valid_key k" and present: "k \<in> keys_of t"
    and sm: "csize t \<le> 3 * 2 ^ 28"
  shows "settles (croquette_remove (Suc (Suc n)) (Some k) g) D_Success
           (\<lambda>t'. table_inv t' \<and> \<not> grows (csize t') (capacity t') \<and>
                 keys_of t' = keys_of t - {k} \<and> csize t' = csize t - 1 \<and>
                 (if csize t - 1 < drop_bit 1 (capacity t)
                  then drop_bit 1 (capacity t) \<le> capacity t'
                  else capacity t' = capacity t) \<and>
                 same_config t t')"
proof -
  let ?g1 = "g\<lparr>croquette_error := D_No_Error\<rparr>"
  let ?b = "nat (bucket_of k (capacity t))"
  let ?Q = "\<lambda>t'. table_inv t' \<and> \<not> grows (csize t') (capacity t') \<and>
                 keys_of t' = keys_of t - {k} \<and> csize t' = csize t - 1 \<and>
                 (if csize t - 1 < drop_bit 1 (capacity t)
                  then drop_bit 1 (capacity t) \<le> capacity t'
                  else capacity t' = capacity t) \<and>
                 same_config t t'"
  note bt = bucket_in_table [OF inv k]
  have g1: "croquette ?g1 = Some t" "allocs ?g1 = []" using g al by simp_all
  from find_present [OF g1(1) inv k present] obtain p
    where f: "croquette_find (Some k) ?g1 = Done (Some (?b, p)) ?g1"
      and pl: "p < length (table t ! ?b)" and pk: "ckey (table t ! ?b ! p) = k" by auto
  have bl: "?b < length (table t)" using bt by simp
  let ?t2 = "t\<lparr>table := (table t)[?b := take p (table t ! ?b) @ drop (Suc p) (table t ! ?b)],
                csize := csize t - 1\<rparr>"
  from remove_entry_ok [OF g1(1) inv bl pl] obtain g2
    where re: "remove_entry (Some (?b, p)) ?g1 = Done D_Success g2"
      and c2: "croquette g2 = Some ?t2" and al2: "allocs g2 = allocs ?g1" by blast
  have inv2: "table_inv ?t2" and keys2: "keys_of ?t2 = keys_of t - {k}"
    using inv_unlink [OF inv bl pl refl] pk by simp_all
  have ng2: "\<not> grows (csize ?t2) (capacity ?t2)"
    using grows_mono [OF ng, of "csize t - 1"] by simp
  have al2': "allocs g2 = []" using al2 al by simp
  from rehash_remove_unfold [OF c2, of "perform_rehash (Suc (Suc n))"] obtain g3
    where c3: "croquette g3 = Some ?t2" and al3: "allocs g3 = allocs g2"
      and rh: "rehash_with (perform_rehash (Suc (Suc n))) D_Remove g2 =
        (if csize ?t2 < drop_bit 1 (capacity ?t2)
         then obind (perform_rehash (Suc (Suc n)) (drop_bit 1 (capacity ?t2)) g3)
             (\<lambda>success g2. if success = D_Error then Done D_Error g2 else Done D_Success g2)
         else Done D_Success g3)"
    by blast
  have al3': "allocs g3 = []" using al3 al2' by simp
  have ne: "k \<noteq> []" using valid_key_nonempty [OF k] by simp
  have unf: "croquette_remove (Suc (Suc n)) (Some k) g =
      obind (rehash_with (perform_rehash (Suc (Suc n))) D_Remove g2)
        (\<lambda>rehash_success g3. if rehash_success = D_Error then Done D_Error g3 else Done D_Success g3)"
    unfolding croquette_remove_def Let_def set_error_eq rehash_def
    by (simp only: g1 option.case ne length_0_conv if_False f obind.simps re)
  have "settles (rehash_with (perform_rehash (Suc (Suc n))) D_Remove g2) D_Success ?Q"
  proof (cases "csize ?t2 < drop_bit 1 (capacity ?t2)")
    case True
    let ?nc = "drop_bit 1 (capacity t)"
    have sz: "0 \<le> csize ?t2" using inv2 by (simp add: table_inv_def)
    with True have nc: "1 \<le> ?nc" by simp
    have sm2: "csize ?t2 \<le> 3 * 2 ^ 28" using sm by simp
    have "settles (perform_rehash (Suc (Suc n)) ?nc g3) D_Success
           (\<lambda>t'. table_inv t' \<and> \<not> grows (csize t') (capacity t') \<and>
                 keys_of t' = keys_of ?t2 \<and> csize t' = csize ?t2 \<and> ?nc \<le> capacity t' \<and>
                 same_config ?t2 t')"
      by (rule perform_rehash_fuel [OF c3 inv2 al3' nc sm2])
    then have "settles (perform_rehash (Suc (Suc n)) ?nc g3) D_Success ?Q"
    proof (rule settles_weaken)
      fix t' assume a: "table_inv t' \<and> \<not> grows (csize t') (capacity t') \<and>
                 keys_of t' = keys_of ?t2 \<and> csize t' = csize ?t2 \<and> ?nc \<le> capacity t' \<and>
                 same_config ?t2 t'"
      have s2: "csize ?t2 = csize t - 1" and cf: "same_config ?t2 t' = same_config t t'"
        by (simp_all add: same_config_def)
      from True have lt: "csize t - 1 < drop_bit 1 (capacity t)" by simp
      from a show "?Q t'"
        unfolding keys2 s2 cf if_P [OF lt] by blast
    qed
    have rh': "rehash_with (perform_rehash (Suc (Suc n))) D_Remove g2 =
         obind (perform_rehash (Suc (Suc n)) ?nc g3)
             (\<lambda>success g2. if success = D_Error then Done D_Error g2 else Done D_Success g2)"
      unfolding rh using True by simp
    show ?thesis
      unfolding rh' by (rule settles_then_check) fact
  next
    case False
    then have rh': "rehash_with (perform_rehash (Suc (Suc n))) D_Remove g2 = Done D_Success g3"
      unfolding rh by simp
    from False have nlt: "\<not> csize t - 1 < drop_bit 1 (capacity t)" by simp
    have "?Q ?t2"
      unfolding if_not_P [OF nlt] using inv2 ng2 keys2 by (simp add: same_config_def)
    with rh' c3 al3' show ?thesis by (intro settlesI [where g' = g3 and t' = ?t2])
  qed
  then show ?thesis unfolding unf by (rule settles_then_check)
qed

lemma remove_absent:
  assumes g: "croquette g = Some t" and inv: "table_inv t" and al: "allocs g = []"
    and k: "valid_key k" and absent: "k \<notin> keys_of t"
  shows "settles (croquette_remove n (Some k) g) D_Success (\<lambda>t'. t' = t)"
proof -
  let ?g1 = "g\<lparr>croquette_error := D_No_Error\<rparr>"
  have g1: "croquette ?g1 = Some t" "allocs ?g1 = []" using g al by simp_all
  have f: "croquette_find (Some k) ?g1 = Done None ?g1"
    using find_absent [OF g1(1) inv k absent] by simp
  have ne: "k \<noteq> []" using valid_key_nonempty [OF k] by simp
  have "croquette_remove n (Some k) g = Done D_Success ?g1"
    unfolding croquette_remove_def Let_def set_error_eq
    by (simp only: g1 option.case ne length_0_conv if_False f obind.simps)
  then show ?thesis using g1 by (auto intro!: settlesI)
qed

lemma clear_chain_ok:
  assumes "croquette g = Some t" and "table_inv t" and "i < length (table t)"
    and "n \<le> length (table t ! i)"
  shows "\<exists>g' t'. clear_chain i n g = Done () g' \<and> croquette g' = Some t' \<and>
           allocs g' = allocs g \<and> table_inv t' \<and>
           table t' = (table t)[i := drop n (table t ! i)] \<and>
           capacity t' = capacity t \<and> same_config t t'"
  using assms
proof (induction n arbitrary: g t)
  case 0
  then show ?case by (intro exI [of _ g] exI [of _ t]) simp
next
  case (Suc n)
  let ?c = "table t ! i"
  let ?t1 = "t\<lparr>table := (table t)[i := take 0 ?c @ drop (Suc 0) ?c], csize := csize t - 1\<rparr>"
  from Suc.prems(4) have pl: "0 < length ?c" by linarith
  from remove_entry_ok [OF Suc.prems(1,2,3) pl] obtain g1
    where re: "remove_entry (Some (i, 0)) g = Done D_Success g1"
      and c1: "croquette g1 = Some ?t1" and al1: "allocs g1 = allocs g" by blast
  have inv1: "table_inv ?t1" using inv_unlink [OF Suc.prems(2,3) pl refl] by simp
  have i1: "i < length (table ?t1)" using Suc.prems(3) by simp
  have n1: "n \<le> length (table ?t1 ! i)" using Suc.prems(3,4) by simp
  from Suc.IH [OF c1 inv1 i1 n1] obtain g' t'
    where cc: "clear_chain i n g1 = Done () g'" and c': "croquette g' = Some t'"
      and al': "allocs g' = allocs g1" and inv': "table_inv t'"
      and tb: "table t' = (table ?t1)[i := drop n (table ?t1 ! i)]"
      and cap: "capacity t' = capacity ?t1" and cfg: "same_config ?t1 t'"
    by blast
  have tb': "table t' = (table t)[i := drop (Suc n) ?c]"
    using tb Suc.prems(3) by simp
  have "clear_chain i (Suc n) g = Done () g'" by (simp add: re cc)
  with c' al' al1 inv' tb' cap cfg show ?case
    by (intro exI [of _ g'] exI [of _ t']) (simp add: same_config_def)
qed

lemma clear_buckets_ok:
  assumes "croquette g = Some t" and "table_inv t" and "i + k \<le> length (table t)"
  shows "\<exists>g' t'. clear_buckets i k g = Done () g' \<and> croquette g' = Some t' \<and>
           allocs g' = allocs g \<and> table_inv t' \<and>
           table t' = take i (table t) @ replicate k [] @ drop (i + k) (table t) \<and>
           capacity t' = capacity t \<and> same_config t t'"
  using assms
proof (induction k arbitrary: i g t)
  case 0
  then show ?case by (intro exI [of _ g] exI [of _ t]) simp
next
  case (Suc k)
  from Suc.prems(3) have il: "i < length (table t)" by simp
  from clear_chain_ok [OF Suc.prems(1,2) il order_refl] obtain g1 t1
    where cc: "clear_chain i (length (table t ! i)) g = Done () g1"
      and c1: "croquette g1 = Some t1" and al1: "allocs g1 = allocs g"
      and inv1: "table_inv t1" and tb1: "table t1 = (table t)[i := []]"
      and cap1: "capacity t1 = capacity t" and cfg1: "same_config t t1"
    by auto
  have same: "t1\<lparr>table := (table t1)[i := []]\<rparr> = t1"
    using tb1 by simp
  have g1': "g1\<lparr>croquette := Some t1\<rparr> = g1" using c1 by simp
  have l1: "Suc i + k \<le> length (table t1)" using Suc.prems(3) tb1 by simp
  from Suc.IH [OF c1 inv1 l1] obtain g' t'
    where cb: "clear_buckets (Suc i) k g1 = Done () g'" and c': "croquette g' = Some t'"
      and al': "allocs g' = allocs g1" and inv': "table_inv t'"
      and tb: "table t' = take (Suc i) (table t1) @ replicate k [] @ drop (Suc i + k) (table t1)"
      and cap: "capacity t' = capacity t1" and cfg: "same_config t1 t'"
    by blast
  have nl: "\<not> length (table t) \<le> i" using il by simp
  have step: "clear_buckets i (Suc k) g = Done () g'"
    by (simp add: Suc.prems(1) nl cc c1 same g1' cb)
  have "take (Suc i) (table t1) = take i (table t) @ [[]]"
    using il tb1 by (simp add: take_Suc_conv_app_nth)
  moreover have "drop (Suc i + k) (table t1) = drop (i + Suc k) (table t)"
    using tb1 by simp
  ultimately have tb': "table t' = take i (table t) @ replicate (Suc k) [] @ drop (i + Suc k) (table t)"
    using tb by (simp add: replicate_app_Cons_same)
  from step c' al' al1 inv' tb' cap cap1 cfg cfg1 show ?case
    by (intro exI [of _ g'] exI [of _ t']) (simp add: same_config_def)
qed

lemma clear_ok:
  assumes g: "croquette g = Some t" and inv: "table_inv t" and al: "allocs g = []"
  shows "settles (croquette_clear (Suc n) g) D_Success
           (\<lambda>t'. table_inv t' \<and> \<not> grows (csize t') (capacity t') \<and> keys_of t' = {} \<and>
                 csize t' = 0 \<and> capacity t' = base_capacity t \<and> same_config t t')"
proof -
  let ?g1 = "g\<lparr>croquette_error := D_No_Error\<rparr>"
  have g1: "croquette ?g1 = Some t" "allocs ?g1 = []" using g al by simp_all
  have l: "0 + nat (capacity t) \<le> length (table t)" using inv_capacity [OF inv] by simp
  from clear_buckets_ok [OF g1(1) inv l] obtain g2 t2
    where cb: "clear_buckets 0 (nat (capacity t)) ?g1 = Done () g2"
      and c2: "croquette g2 = Some t2" and al2: "allocs g2 = allocs ?g1"
      and inv2: "table_inv t2"
      and tb2: "table t2 = take 0 (table t) @ replicate (nat (capacity t)) [] @
                  drop (0 + nat (capacity t)) (table t)"
      and cap2: "capacity t2 = capacity t" and cfg2: "same_config t t2"
    by blast
  have al2': "allocs g2 = []" using al2 al by simp
  have "concat (table t2) = []" unfolding tb2 using inv_capacity [OF inv] by simp
  then have k2: "keys_of t2 = {}" and s2: "csize t2 = 0"
    using inv2 by (simp_all add: keys_of_def table_inv_def)
  have b2: "base_capacity t2 = base_capacity t" using cfg2 by (simp add: same_config_def)
  have nc: "1 \<le> base_capacity t2" using inv2 by (simp add: table_inv_def)
  have ng: "\<not> grows (csize t2) (base_capacity t2)" using not_grows_empty [OF nc] s2 by simp
  have "settles (perform_rehash_with (put_with (rehash_with (perform_rehash n)))
                   (base_capacity t2) g2) D_Success
           (\<lambda>t'. table_inv t' \<and> keys_of t' = keys_of t2 \<and> csize t' = csize t2 \<and>
                 capacity t' = base_capacity t2 \<and> same_config t2 t')"
    by (rule perform_rehash_nogrow [OF c2 inv2 al2' nc ng])
  then have "settles (perform_rehash (Suc n) (base_capacity t2) g2) D_Success
           (\<lambda>t'. table_inv t' \<and> \<not> grows (csize t') (capacity t') \<and> keys_of t' = {} \<and>
                 csize t' = 0 \<and> capacity t' = base_capacity t \<and> same_config t t')"
    unfolding perform_rehash.simps
  proof (rule settles_weaken)
    fix t' assume a: "table_inv t' \<and> keys_of t' = keys_of t2 \<and> csize t' = csize t2 \<and>
                 capacity t' = base_capacity t2 \<and> same_config t2 t'"
    then have "csize t' = 0" "capacity t' = base_capacity t" using s2 b2 by simp_all
    with ng s2 b2 have "\<not> grows (csize t') (capacity t')" by simp
    with a cfg2 show "table_inv t' \<and> \<not> grows (csize t') (capacity t') \<and> keys_of t' = {} \<and>
                 csize t' = 0 \<and> capacity t' = base_capacity t \<and> same_config t t'"
      unfolding k2 s2 b2 by (auto simp: same_config_def)
  qed
  moreover have "croquette_clear (Suc n) g = perform_rehash (Suc n) (base_capacity t2) g2"
    unfolding croquette_clear_def Let_def set_error_eq
    by (simp only: g1 option.case cb obind.simps deref_Some [OF c2])
  ultimately show ?thesis by simp
qed

lemma destroy_ok:
  assumes "croquette g = Some t" and "table_inv t" and "allocs g = []"
  shows "\<exists>g'. croquette_destroy (Suc n) g = Done () g' \<and> croquette g' = None"
proof -
  from clear_ok [OF assms, of n] obtain g1
    where "croquette_clear (Suc n) g = Done D_Success g1"
    by (auto elim!: settlesE)
  with assms(1) show ?thesis
    by (simp add: croquette_destroy_def D_Success_def D_Error_def)
qed

subsection \<open>Creation, and runs of puts\<close>

lemma healthyI:
  "croquette g = Some t \<Longrightarrow> table_inv t \<Longrightarrow> \<not> grows (csize t) (capacity t) \<Longrightarrow> allocs g = [] \<Longrightarrow>
   healthy g"
  by (simp add: healthy_def)

lemma healthyE:
  assumes "healthy g"
  obtains t where "croquette g = Some t" "table_inv t" "\<not> grows (csize t) (capacity t)"
    "allocs g = []"
  using assms by (auto simp: healthy_def)

lemma create_ok:
  assumes "croquette g = None" and "allocs g = []" and "1 \<le> cap"
    and "dofree = Croquette_Free_Value \<longrightarrow> free_fn \<noteq> None"
  shows "settles (croquette_create cap dofree free_fn (Some cmp) g) D_Success
           (\<lambda>t. table_inv t \<and> \<not> grows (csize t) (capacity t) \<and> keys_of t = {} \<and>
                csize t = 0 \<and> capacity t = cap \<and> base_capacity t = cap \<and>
                do_free t = dofree \<and> free_value t = free_fn \<and> value_compare t = Some cmp)"
proof -
  let ?t = "\<lparr>do_free = dofree, csize = 0, capacity = cap, base_capacity = cap,
             table = replicate (nat cap) [], free_value = free_fn, value_compare = Some cmp\<rparr>"
  let ?g = "g\<lparr>croquette_error := D_No_Error, croquette := Some ?t\<rparr>"
  have ca: "calloc (g\<lparr>croquette_error := D_No_Error\<rparr>) = (True, g\<lparr>croquette_error := D_No_Error\<rparr>)"
    using assms(2) by simp
  have nf: "\<not> (dofree = Croquette_Free_Value \<and> free_fn = None)" using assms(4) by blast
  have nc: "\<not> cap \<le> 0" using assms(3) by simp
  have "croquette_create cap dofree free_fn (Some cmp) g = Done D_Success ?g"
    using assms(1) by (simp add: croquette_create_def Let_def ca nf nc)
  moreover have "table_inv ?t"
    using assms(3,4)
    by (simp add: table_inv_def D_Do_Free_def Croquette_Free_Value_def)
  moreover have "\<not> grows (csize ?t) (capacity ?t)" using not_grows_empty [OF assms(3)] by simp
  moreover have "keys_of ?t = {}" by (simp add: keys_of_def)
  ultimately show ?thesis
    using assms(2) by (intro settlesI [where g' = ?g and t' = ?t]) simp_all
qed

lemma size_capacity_read:
  assumes "croquette g = Some t"
  shows "fst (croquette_size g) = csize t"
    and "fst (croquette_capacity (snd (croquette_size g))) = capacity t"
    and "croquette (snd (croquette_capacity (snd (croquette_size g)))) = Some t"
    and "allocs (snd (croquette_capacity (snd (croquette_size g)))) = allocs g"
  using assms by (simp_all add: croquette_size_def croquette_capacity_def)

lemma put_all_trace:
  assumes "croquette g = Some t" and "table_inv t" and "allocs g = []"
    and "\<not> grows (csize t) (capacity t)"
    and "distinct (map fst kvs)" and "\<forall>k \<in> fst ` set kvs. valid_key k"
    and "fst ` set kvs \<inter> keys_of t = {}"
    and "csize t + int (length kvs) \<le> 3 * 2 ^ 28"
  shows "returned (put_all (Suc n) kvs g) = Some (growth_trace (csize t) (capacity t) (length kvs))"
  using assms
proof (induction kvs arbitrary: g t)
  case Nil
  then show ?case by (simp add: returned_def)
next
  case (Cons kv kvs)
  obtain k v where kv: "kv = (k, v)" by (cases kv)
  from Cons.prems kv have k: "valid_key k" and absent: "k \<notin> keys_of t" by auto
  let ?cap' = "if grows (csize t + 1) (capacity t) then push_bit 1 (capacity t) else capacity t"
  from Cons.prems(8) have sm: "csize t < 3 * 2 ^ 28" by simp
  from put_absent [OF Cons.prems(1-4) k absent sm, of n v] obtain g1 t1
    where put: "croquette_put (Suc n) (Some k) v g = Done D_Success g1"
      and c1: "croquette g1 = Some t1" and al1: "allocs g1 = []"
      and inv1: "table_inv t1" and ng1: "\<not> grows (csize t1) (capacity t1)"
      and keys1: "keys_of t1 = insert k (keys_of t)"
      and sz1: "csize t1 = csize t + 1" and cap1: "capacity t1 = ?cap'"
    by (auto elim!: settlesE)
  have sm1: "csize t1 + int (length kvs) \<le> 3 * 2 ^ 28"
    using Cons.prems(8) sz1 by simp
  let ?g2 = "snd (croquette_capacity (snd (croquette_size g1)))"
  note rd = size_capacity_read [OF c1]
  have al2: "allocs ?g2 = []" using rd(4) al1 by simp
  have d: "distinct (map fst kvs)" and v: "\<forall>k \<in> fst ` set kvs. valid_key k"
    using Cons.prems by simp_all
  have dj: "fst ` set kvs \<inter> keys_of t1 = {}"
    using Cons.prems(5,7) keys1 kv by auto
  from Cons.IH [OF rd(3) inv1 al2 ng1 d v dj sm1]
  have ih: "returned (put_all (Suc n) kvs ?g2) =
              Some (growth_trace (csize t + 1) ?cap' (length kvs))"
    unfolding sz1 cap1 .
  then obtain seen g3 where pa: "put_all (Suc n) kvs ?g2 = Done seen g3"
    and seen: "seen = growth_trace (csize t + 1) ?cap' (length kvs)"
    by (cases "put_all (Suc n) kvs ?g2") (simp_all add: returned_def)
  have "put_all (Suc n) (kv # kvs) g = Done ((csize t1, capacity t1) # seen) g3"
    unfolding kv by (simp add: put Let_def rd(1,2) pa)
  then show ?case
    unfolding seen sz1 cap1 by (simp add: returned_def Let_def)
qed

lemma test_keys_valid:
  "valid_key ''aaa''" "valid_key ''bee''" "valid_key ''cee''" "valid_key ''dee''"
  "valid_key ''eee''" "valid_key ''eff''" "valid_key ''gee''"
  by code_simp+

lemma bee_bucket: "bucket_of ''bee'' 2 = 1"
  by code_simp

lemma demo_table_inv: "table_inv demo_table"
  using test_keys_valid(2) bee_bucket
  by (auto simp: table_inv_def demo_table_def less_Suc_eq D_Do_Free_def)

lemma demo_healthy: "healthy demo"
  using demo_table_inv
  by (auto simp: healthy_def demo_def grows_def demo_table_def drop_bit_eq_div)

lemma demo_keys: "keys_of demo_table = {''bee''}"
  by (simp add: keys_of_def demo_table_def)

subsection \<open>The hash code over the integers\<close>

text \<open>
  The 64-bit loop computes the accumulation of the characters, read as signed bytes,
  reduced to the range of a \<^verbatim>\<open>long\<close>. Nine characters of seven bits fill 63 bits: for
  such a key nothing is reduced and the hash code is the accumulation of the ordinal
  values.
\<close>

lemma ordinal_range: "0 \<le> ordinal c \<and> ordinal c < 256"
  unfolding ordinal_def
  by (metis of_char_mod_256 pos_mod_bound pos_mod_sign zero_less_numeral)

lemma sint_of_char: "sint (of_char c :: 8 word) = signed_char c"
proof -
  obtain b0 b1 b2 b3 b4 b5 b6 b7 where c: "c = Char b0 b1 b2 b3 b4 b5 b6 b7" by (cases c)
  show ?thesis
    unfolding c
    by (cases b0; cases b1; cases b2; cases b3; cases b4; cases b5; cases b6; cases b7)
       (simp_all add: signed_char_def ordinal_def)
qed

lemma char_long_signed: "char_long c = word_of_int (signed_char c)"
  unfolding char_long_def sint_of_char [symmetric]
  by simp

lemma sint_long_value: "sint (word_of_int x :: 64 word) = long_value x"
  by (simp add: sint_uint signed_take_bit_eq_take_bit_shift take_bit_eq_mod long_value_def
      uint_word_of_int mod_simps)

lemma hash_acc_int:
  "hash_acc (word_of_int x) cs = word_of_int (shift_add signed_char x cs)"
  by (induction signed_char x cs rule: shift_add.induct)
     (simp_all add: char_long_signed push_bit_eq_mult)

lemma hash_unrolled_int: "hash_unrolled key = word_of_int (accumulate signed_char key)"
proof (cases key)
  case Nil
  then show ?thesis by (simp add: hash_unrolled_def accumulate_def)
next
  case (Cons c cs)
  then show ?thesis
    using hash_acc_int [of 0 key]
    by (cases cs) (simp_all add: hash_unrolled_def accumulate_def char_long_signed push_bit_eq_mult)
qed

lemma hash_code_int:
  "key \<noteq> [] \<Longrightarrow> sint (hash_code key) = long_value (accumulate signed_char key)"
  by (simp add: hash_code_unrolled hash_unrolled_int sint_long_value)

lemma seven_bit_signed:
  "seven_bit key \<Longrightarrow> shift_add signed_char tot key = shift_add ordinal tot key"
  by (induction ordinal tot key rule: shift_add.induct)
     (simp_all add: seven_bit_def signed_char_def)

lemma seven_bit_accumulate: "seven_bit key \<Longrightarrow> accumulate signed_char key = hash_spec key"
  using seven_bit_signed [of key 0]
  by (auto simp: accumulate_def hash_spec_def seven_bit_def signed_char_def split: list.splits)

lemma shift_add_nonneg: "0 \<le> tot \<Longrightarrow> 0 \<le> shift_add ordinal tot cs"
  by (induction ordinal tot cs rule: shift_add.induct) (simp_all add: ordinal_range)

lemma shift_add_seven_bit_bound:
  "seven_bit cs \<Longrightarrow> cs \<noteq> [] \<Longrightarrow> 0 \<le> tot \<Longrightarrow>
   shift_add ordinal tot cs < (tot + 128) * 128 ^ (length cs - 1)"
proof (induction ordinal tot cs rule: shift_add.induct)
  case (1 tot)
  then show ?case by simp
next
  case (2 tot c)
  then show ?case by (simp add: seven_bit_def)
next
  case (3 tot c d cs)
  let ?t = "(tot + ordinal c) * 2 ^ 7"
  from 3 have c: "ordinal c < 128" and sb: "seven_bit (d # cs)" by (simp_all add: seven_bit_def)
  have t0: "0 \<le> ?t" using 3 ordinal_range [of c] by simp
  have "shift_add ordinal tot (c # d # cs) = shift_add ordinal ?t (d # cs)" by simp
  also have "\<dots> < (?t + 128) * 128 ^ length cs"
    using "3.hyps" [OF sb _ t0] by simp
  also have "\<dots> \<le> ((tot + 128) * 128) * 128 ^ length cs"
    using c by (intro mult_right_mono) simp_all
  also have "\<dots> = (tot + 128) * 128 ^ (length (c # d # cs) - 1)" by simp
  finally show ?case .
qed

lemma hash_spec_nonneg: "0 \<le> hash_spec key"
  using shift_add_nonneg [of 0 key] ordinal_range
  by (auto simp: hash_spec_def accumulate_def split: list.splits)

lemma short_hash_spec:
  assumes "seven_bit key" and "length key \<le> 9"
  shows "hash_spec key < 2 ^ 63"
proof -
  have "hash_spec key < 128 ^ 9"
  proof (cases key)
    case Nil
    then show ?thesis by (simp add: hash_spec_def accumulate_def)
  next
    case (Cons c cs)
    show ?thesis
    proof (cases cs)
      case Nil
      with Cons assms(1) have "ordinal c < 128" by (simp add: seven_bit_def)
      with Cons Nil show ?thesis by (simp add: hash_spec_def accumulate_def)
    next
      case (Cons d ds)
      with \<open>key = c # cs\<close> have h: "hash_spec key = shift_add ordinal 0 key"
        by (simp add: hash_spec_def accumulate_def)
      have ne: "key \<noteq> []" using \<open>key = c # cs\<close> by simp
      have "shift_add ordinal 0 key < (0 + 128) * 128 ^ (length key - 1)"
        by (rule shift_add_seven_bit_bound [OF assms(1) ne]) simp
      also have "\<dots> = 128 ^ length key" using ne by (cases key) simp_all
      also have "\<dots> \<le> 128 ^ 9" using assms(2) by (intro power_increasing) simp_all
      finally show ?thesis unfolding h .
    qed
  qed
  then show ?thesis by simp
qed

lemma long_value_id: "- (2 ^ 63) \<le> x \<Longrightarrow> x < 2 ^ 63 \<Longrightarrow> long_value x = x"
  by (simp add: long_value_def)

lemma long_value_range: "- (2 ^ 63) \<le> long_value x \<and> long_value x < 2 ^ 63"
  by (simp add: long_value_def)

lemma seven_bit_hash:
  "key \<noteq> [] \<Longrightarrow> seven_bit key \<Longrightarrow> sint (hash_code key) = long_value (hash_spec key)"
  by (simp add: hash_code_int seven_bit_accumulate)

lemma seven_bit_exact:
  assumes "key \<noteq> []" and "seven_bit key"
  shows "sint (hash_code key) = hash_spec key \<longleftrightarrow> hash_spec key < 2 ^ 63"
proof
  assume "sint (hash_code key) = hash_spec key"
  then have "hash_spec key = long_value (hash_spec key)"
    using seven_bit_hash [OF assms] by simp
  then show "hash_spec key < 2 ^ 63"
    using long_value_range [of "hash_spec key"] by simp
next
  assume lt: "hash_spec key < 2 ^ 63"
  have "- (2 ^ 63) \<le> (0::int)" by simp
  then have "- (2 ^ 63) \<le> hash_spec key"
    using hash_spec_nonneg [of key] by (rule order_trans)
  from long_value_id [OF this lt] show "sint (hash_code key) = hash_spec key"
    using seven_bit_hash [OF assms] by simp
qed

lemma short_ascii_unbounded:
  assumes "k \<noteq> []" and "length k \<le> 9" and "seven_bit k"
  shows "sint (hash_code k) = hash_spec k"
  using seven_bit_exact [OF assms(1,3)] short_hash_spec [OF assms(3,2)] by simp

lemma short_ascii_valid:
  assumes "k \<noteq> []" and "length k \<le> 9" and "seven_bit k"
  shows "valid_key k"
  using short_ascii_unbounded [OF assms] hash_spec_nonneg [of k] assms(1,2)
  by (simp add: valid_key_def MAX_KEY_SIZE_def)

lemma bee_hash: "hash_spec ''bee'' = 1618661"
  by code_simp

lemma bee_seven_bit: "seven_bit ''bee''"
  by code_simp

subsection \<open>A key whose hash code is negative\<close>

text \<open>
  Ten times the letter a: the tenth shift moves the low bit of the first character
  into the sign bit. On a table of the default capacity the index is -3 and the lookup
  reads in front of the bucket array; on a table of capacity 1 the put returns
  success, but the rehash it triggers drops the key.
\<close>

lemma negative_hash_key:
  "sint (hash_code ''aaaaaaaaaa'') < 0 \<and>
   returned
     (obind (croquette_create 0 D_Do_Free (Some log_release) (Some compare_nat) no_table) (\<lambda>_ g.
        get_index (Some ''aaaaaaaaaa'') g)) = Some (- 3) \<and>
   faulted
     (obind (croquette_create 0 D_Do_Free (Some log_release) (Some compare_nat) no_table) (\<lambda>_ g.
        croquette_put 1 (Some ''aaaaaaaaaa'') (Some 1) g)) = Some Out_Of_Bounds \<and>
   returned
     (obind (croquette_create 1 D_Do_Free (Some log_release) (Some compare_nat) no_table) (\<lambda>_ g.
        croquette_put 1 (Some ''aaaaaaaaaa'') (Some 1) g)) = Some D_Success \<and>
   size_capacity
     (obind (croquette_create 1 D_Do_Free (Some log_release) (Some compare_nat) no_table) (\<lambda>_ g.
        croquette_put 1 (Some ''aaaaaaaaaa'') (Some 1) g)) = Some (0, 2)"
  by code_simp

subsection \<open>Runs on well-behaved keys\<close>

text \<open>
  Where the keys are well-behaved and the table holds at most \<open>3 \<cdot> 2\<^sup>2\<^sup>8\<close> nodes, the
  code does follow the policy of the specification. A table created with capacity 1
  into which seven distinct such keys are put reads
  (1,2), (2,4), (3,4), (4,8), (5,8), (6,8), (7,16) after the puts, the run of "double
  when the size exceeds \<open>(capacity >> 1) + (capacity >> 2)\<close> or reaches the capacity"
  from size 0 and capacity 1.
\<close>

lemma valid_keys_growth_sequence:
  assumes "croquette g = None" and "allocs g = []"
    and "dofree = Croquette_Free_Value \<longrightarrow> free_fn \<noteq> None"
    and "length kvs = 7" and "distinct (map fst kvs)" and "\<forall>k \<in> fst ` set kvs. valid_key k"
  shows "returned (obind (croquette_create 1 dofree free_fn (Some cmp) g)
                     (\<lambda>_ g1. put_all (Suc n) kvs g1)) =
           Some [(1, 2), (2, 4), (3, 4), (4, 8), (5, 8), (6, 8), (7, 16)] \<and>
         growth_trace 0 1 7 = [(1, 2), (2, 4), (3, 4), (4, 8), (5, 8), (6, 8), (7, 16)]"
proof -
  from create_ok [OF assms(1,2) order_refl assms(3), of cmp] obtain g1 t1
    where cr: "croquette_create 1 dofree free_fn (Some cmp) g = Done D_Success g1"
      and c1: "croquette g1 = Some t1" and al1: "allocs g1 = []"
      and inv1: "table_inv t1" and ng1: "\<not> grows (csize t1) (capacity t1)"
      and keys1: "keys_of t1 = {}" and sz1: "csize t1 = 0" and cap1: "capacity t1 = 1"
    by (auto elim!: settlesE)
  have dj: "fst ` set kvs \<inter> keys_of t1 = {}" using keys1 by simp
  have sm: "csize t1 + int (length kvs) \<le> 3 * 2 ^ 28" using sz1 assms(4) by simp
  have tr: "growth_trace 0 1 7 = [(1, 2), (2, 4), (3, 4), (4, 8), (5, 8), (6, 8), (7, 16)]"
    by code_simp
  from put_all_trace [OF c1 inv1 al1 ng1 assms(5,6) dj sm, of n]
  have "returned (put_all (Suc n) kvs g1) = Some (growth_trace 0 1 7)"
    unfolding sz1 cap1 assms(4) .
  then show ?thesis unfolding cr tr by simp
qed

text \<open>
  In a healthy state that holds less than \<open>3 \<cdot> 2\<^sup>2\<^sup>8\<close> nodes the invariants of the
  specification hold, and with a well-behaved key \<^verbatim>\<open>croquette_put\<close>,
  \<^verbatim>\<open>croquette_remove\<close>, \<^verbatim>\<open>croquette_clear\<close> and \<^verbatim>\<open>perform_rehash\<close> to any capacity of at
  least 1 return success and leave a healthy state. A put of a key that is present
  keeps the set of keys and the size; a put of an absent key adds the key and 1 to the
  size. The put of a present key is covered when the table has a release callback,
  which the update path calls.
\<close>

lemma healthy_preserved:
  assumes "healthy g" and "croquette g = Some t" and "valid_key k" and "1 \<le> nc"
    and "csize t < 3 * 2 ^ 28"
  shows "(0 \<le> csize t \<and> 1 \<le> capacity t \<and> csize t = int (length (concat (table t))) \<and>
          distinct (map ckey (concat (table t)))) \<and>
         (k \<notin> keys_of t \<or> free_value t \<noteq> None \<longrightarrow>
            (\<exists>g' t'. croquette_put (Suc n) (Some k) v g = Done D_Success g' \<and> healthy g' \<and>
               croquette g' = Some t' \<and> keys_of t' = insert k (keys_of t) \<and>
               csize t' = (if k \<in> keys_of t then csize t else csize t + 1))) \<and>
         (\<exists>g' t'. croquette_remove (Suc (Suc n)) (Some k) g = Done D_Success g' \<and> healthy g' \<and>
            croquette g' = Some t' \<and> keys_of t' = keys_of t - {k}) \<and>
         (\<exists>g'. croquette_clear (Suc n) g = Done D_Success g' \<and> healthy g') \<and>
         (\<exists>g' t'. perform_rehash (Suc (Suc n)) nc g = Done D_Success g' \<and> healthy g' \<and>
            croquette g' = Some t' \<and> keys_of t' = keys_of t \<and> csize t' = csize t)"
proof -
  from assms(1,2) have inv: "table_inv t" and ng: "\<not> grows (csize t) (capacity t)"
    and al: "allocs g = []"
    by (auto simp: healthy_def)
  note g = assms(2) and k = assms(3)
  from assms(5) have sm: "csize t \<le> 3 * 2 ^ 28" by simp
  have props: "0 \<le> csize t \<and> 1 \<le> capacity t \<and> csize t = int (length (concat (table t))) \<and>
          distinct (map ckey (concat (table t)))"
    using inv by (simp add: table_inv_def)
  have put: "\<exists>g' t'. croquette_put (Suc n) (Some k) v g = Done D_Success g' \<and> healthy g' \<and>
               croquette g' = Some t' \<and> keys_of t' = insert k (keys_of t) \<and>
               csize t' = (if k \<in> keys_of t then csize t else csize t + 1)"
    if "k \<notin> keys_of t \<or> free_value t \<noteq> None"
  proof (cases "k \<in> keys_of t")
    case True
    with that have fv: "free_value t \<noteq> None" by simp
    from put_present [OF g inv al k True fv, of "rehash (Suc n)" v] obtain g' t'
      where "croquette_put (Suc n) (Some k) v g = Done D_Success g'" "croquette g' = Some t'"
        "allocs g' = []" "table_inv t'" "keys_of t' = keys_of t" "csize t' = csize t"
        "capacity t' = capacity t"
      unfolding croquette_put_def by (auto elim!: settlesE)
    with ng True show ?thesis
      by (intro exI [of _ g'] exI [of _ t']) (auto simp: healthy_def)
  next
    case False
    from put_absent [OF g inv al ng k False assms(5), of n v] obtain g' t'
      where "croquette_put (Suc n) (Some k) v g = Done D_Success g'" "croquette g' = Some t'"
        "allocs g' = []" "table_inv t'" "\<not> grows (csize t') (capacity t')"
        "keys_of t' = insert k (keys_of t)" "csize t' = csize t + 1"
      by (auto elim!: settlesE)
    with False show ?thesis
      by (intro exI [of _ g'] exI [of _ t']) (auto simp: healthy_def)
  qed
  have remove: "\<exists>g' t'. croquette_remove (Suc (Suc n)) (Some k) g = Done D_Success g' \<and>
            healthy g' \<and> croquette g' = Some t' \<and> keys_of t' = keys_of t - {k}"
  proof (cases "k \<in> keys_of t")
    case True
    from remove_present [OF g inv al ng k True sm, of n] obtain g' t'
      where "croquette_remove (Suc (Suc n)) (Some k) g = Done D_Success g'"
        "croquette g' = Some t'" "allocs g' = []" "table_inv t'"
        "\<not> grows (csize t') (capacity t')" "keys_of t' = keys_of t - {k}"
      by (auto elim!: settlesE)
    then show ?thesis
      by (intro exI [of _ g'] exI [of _ t']) (auto simp: healthy_def)
  next
    case False
    from remove_absent [OF g inv al k False, of "Suc (Suc n)"] obtain g'
      where "croquette_remove (Suc (Suc n)) (Some k) g = Done D_Success g'"
        "croquette g' = Some t" "allocs g' = []"
      by (auto elim!: settlesE)
    with False inv ng show ?thesis
      by (intro exI [of _ g'] exI [of _ t]) (auto simp: healthy_def)
  qed
  have clear: "\<exists>g'. croquette_clear (Suc n) g = Done D_Success g' \<and> healthy g'"
  proof -
    from clear_ok [OF g inv al, of n] obtain g' t'
      where "croquette_clear (Suc n) g = Done D_Success g'"
        "croquette g' = Some t'" "allocs g' = []" "table_inv t'"
        "\<not> grows (csize t') (capacity t')"
      by (auto elim!: settlesE)
    then show ?thesis by (intro exI [of _ g']) (auto simp: healthy_def)
  qed
  have rehash: "\<exists>g' t'. perform_rehash (Suc (Suc n)) nc g = Done D_Success g' \<and> healthy g' \<and>
            croquette g' = Some t' \<and> keys_of t' = keys_of t \<and> csize t' = csize t"
  proof -
    from perform_rehash_fuel [OF g inv al assms(4) sm, of n] obtain g' t'
      where "perform_rehash (Suc (Suc n)) nc g = Done D_Success g'"
        "croquette g' = Some t'" "allocs g' = []" "table_inv t'"
        "\<not> grows (csize t') (capacity t')" "keys_of t' = keys_of t" "csize t' = csize t"
      by (auto elim!: settlesE)
    then show ?thesis by (intro exI [of _ g'] exI [of _ t']) (auto simp: healthy_def)
  qed
  from props put remove clear rehash show ?thesis by blast
qed

text \<open>
  The hypotheses can be met: the table \<open>demo\<close> is healthy and \<^verbatim>\<open>"bee"\<close> is well-behaved.
\<close>

lemma healthy_preserved_instance:
  "(\<exists>g' t'. croquette_put (Suc 0) (Some ''bee'') (Some 1337) demo = Done D_Success g' \<and> healthy g' \<and>
      croquette g' = Some t' \<and> keys_of t' = {''bee''} \<and> csize t' = 1) \<and>
   (\<exists>g' t'. croquette_remove (Suc (Suc 0)) (Some ''bee'') demo = Done D_Success g' \<and> healthy g' \<and>
      croquette g' = Some t' \<and> keys_of t' = {}) \<and>
   (\<exists>g'. croquette_clear (Suc 0) demo = Done D_Success g' \<and> healthy g') \<and>
   (\<exists>g' t'. perform_rehash (Suc (Suc 0)) 4 demo = Done D_Success g' \<and> healthy g' \<and>
      croquette g' = Some t' \<and> keys_of t' = {''bee''} \<and> csize t' = 1)"
proof -
  have c: "croquette demo = Some demo_table" by (simp add: demo_def)
  have fv: "free_value demo_table = Some log_release" by (simp add: demo_table_def)
  have sz: "csize demo_table = 1" by (simp add: demo_table_def)
  have sm: "csize demo_table < 3 * 2 ^ 28" by (simp add: demo_table_def)
  from healthy_preserved [OF demo_healthy c test_keys_valid(2) _ sm, of 4 0 "Some 1337"]
  show ?thesis
    unfolding demo_keys sz using fv by simp
qed

section \<open>The claims\<close>

text \<open>
  C5 (as amended). For every nonempty key the hash code is the accumulation the
  specification describes, carried out on the characters read as signed bytes and
  reduced to the 64 bits of a \<^verbatim>\<open>long\<close>. For a key whose characters are all below 128
  it is the accumulation of the ordinal values exactly when that total is below
  \<open>2\<^sup>6\<^sup>3\<close>, which is so for every key of at most nine such characters; for those keys
  the bucket index is \<open>hash_spec key mod capacity\<close>. On a table of capacity at least 1
  the bucket index is the hash code modulo the capacity whenever the hash code is not
  negative.
\<close>

theorem hash_and_index:
  assumes "key \<noteq> []" and "croquette g = Some t" and "0 < capacity t"
  shows "sint (hash_code key) = long_value (accumulate signed_char key) \<and>
         (seven_bit key \<longrightarrow>
            (sint (hash_code key) = hash_spec key \<longleftrightarrow> hash_spec key < 2 ^ 63)) \<and>
         (seven_bit key \<and> length key \<le> 9 \<longrightarrow>
            sint (hash_code key) = hash_spec key \<and>
            get_index (Some key) g =
              Done (hash_spec key mod capacity t) (g\<lparr>croquette_error := D_No_Error\<rparr>)) \<and>
         (0 \<le> sint (hash_code key) \<longrightarrow>
            get_index (Some key) g =
              Done (sint (hash_code key) mod capacity t) (g\<lparr>croquette_error := D_No_Error\<rparr>))"
proof -
  have idx: "get_index (Some key) g =
               Done (sint (hash_code key) mod capacity t) (g\<lparr>croquette_error := D_No_Error\<rparr>)"
    if "0 \<le> sint (hash_code key)"
    using assms that by (simp add: get_index_def smod_nonneg)
  have short: "sint (hash_code key) = hash_spec key \<and>
            get_index (Some key) g =
              Done (hash_spec key mod capacity t) (g\<lparr>croquette_error := D_No_Error\<rparr>)"
    if "seven_bit key" and "length key \<le> 9"
  proof -
    have e: "sint (hash_code key) = hash_spec key"
      by (rule short_ascii_unbounded [OF assms(1) that(2,1)])
    then have "0 \<le> sint (hash_code key)" using hash_spec_nonneg [of key] by simp
    from idx [OF this] e show ?thesis by simp
  qed
  from hash_code_int [OF assms(1)] seven_bit_exact [OF assms(1)] short idx
  show ?thesis by blast
qed

theorem hash_and_index_witness:
  "''bee'' \<noteq> [] \<and> croquette demo = Some demo_table \<and> 0 < capacity demo_table \<and>
   seven_bit ''bee'' \<and> length ''bee'' \<le> 9 \<and> hash_spec ''bee'' = 1618661 \<and>
   sint (hash_code ''bee'') = long_value (accumulate signed_char ''bee'') \<and>
   sint (hash_code ''bee'') = hash_spec ''bee'' \<and>
   get_index (Some ''bee'') demo = Done 1 (demo\<lparr>croquette_error := D_No_Error\<rparr>)"
proof -
  have c: "croquette demo = Some demo_table" by (simp add: demo_def)
  have cap: "capacity demo_table = 2" by (simp add: demo_table_def)
  from hash_and_index [of "''bee''" demo demo_table] c cap bee_seven_bit
  show ?thesis by (simp add: bee_hash)
qed

text \<open>
  C5 as the specification states it fails. The key \<^verbatim>\<open>"hello world"\<close> has eleven
  characters: the accumulation of its ordinal values needs 77 bits, the hash code is
  what is left of it in a \<^verbatim>\<open>long\<close> and is negative, and on a table of the default
  capacity 11 the bucket index is -8, where the accumulation modulo 11 is 10. The key
  of the single character 255 has the accumulation \<open>255 \<cdot> 2\<^sup>7\<close> and the hash code -128.
\<close>

theorem hash_departs_from_accumulation:
  "hash_spec ''hello world'' = 123720932638399026476644 \<and>
   sint (hash_code ''hello world'') = - 1379863970936211868 \<and>
   hash_spec ''hello world'' mod 11 = 10 \<and>
   returned
     (obind (croquette_create 0 D_Do_Free (Some log_release) (Some compare_nat) no_table) (\<lambda>_ g.
        get_index (Some ''hello world'') g)) = Some (- 8) \<and>
   hash_spec [CHR 0xFF] = 32640 \<and>
   sint (hash_code [CHR 0xFF]) = - 128"
  by code_simp

text \<open>
  C7. When no table exists, \<^verbatim>\<open>isEmpty\<close>, \<^verbatim>\<open>size\<close>, \<^verbatim>\<open>capacity\<close>, \<^verbatim>\<open>containsKey\<close>, \<^verbatim>\<open>get\<close>,
  \<^verbatim>\<open>put\<close>, \<^verbatim>\<open>remove\<close> and \<^verbatim>\<open>clear\<close> all fail (\<^verbatim>\<open>D_Error\<close>, or the null pointer for
  \<^verbatim>\<open>get\<close>) with the last error set to \<^verbatim>\<open>D_Uninitialized\<close>, and the state after the
  call differs from the state before it in the last-error slot only.
\<close>

theorem uninitialized_access:
  assumes "croquette g = None"
  shows "croquette_isEmpty g = (D_Error, g\<lparr>croquette_error := D_Uninitialized\<rparr>) \<and>
         croquette_size g = (D_Error, g\<lparr>croquette_error := D_Uninitialized\<rparr>) \<and>
         croquette_capacity g = (D_Error, g\<lparr>croquette_error := D_Uninitialized\<rparr>) \<and>
         croquette_containsKey key g = Done D_Error (g\<lparr>croquette_error := D_Uninitialized\<rparr>) \<and>
         croquette_get key g = Done None (g\<lparr>croquette_error := D_Uninitialized\<rparr>) \<and>
         croquette_put n key v g = Done D_Error (g\<lparr>croquette_error := D_Uninitialized\<rparr>) \<and>
         croquette_remove n key g = Done D_Error (g\<lparr>croquette_error := D_Uninitialized\<rparr>) \<and>
         croquette_clear n g = Done D_Error (g\<lparr>croquette_error := D_Uninitialized\<rparr>)"
  using assms
  by (simp add: croquette_isEmpty_def croquette_size_def croquette_capacity_def
      croquette_containsKey_def croquette_get_def croquette_put_def put_with_def
      croquette_remove_def croquette_clear_def)

theorem uninitialized_access_witness:
  "croquette no_table = None \<and>
   croquette_isEmpty no_table = (D_Error, no_table\<lparr>croquette_error := D_Uninitialized\<rparr>) \<and>
   croquette_size no_table = (D_Error, no_table\<lparr>croquette_error := D_Uninitialized\<rparr>) \<and>
   croquette_capacity no_table = (D_Error, no_table\<lparr>croquette_error := D_Uninitialized\<rparr>) \<and>
   croquette_containsKey (Some ''aaa'') no_table =
     Done D_Error (no_table\<lparr>croquette_error := D_Uninitialized\<rparr>) \<and>
   croquette_get (Some ''aaa'') no_table =
     Done None (no_table\<lparr>croquette_error := D_Uninitialized\<rparr>) \<and>
   croquette_put 1 (Some ''aaa'') (Some 42) no_table =
     Done D_Error (no_table\<lparr>croquette_error := D_Uninitialized\<rparr>) \<and>
   croquette_remove 1 (Some ''aaa'') no_table =
     Done D_Error (no_table\<lparr>croquette_error := D_Uninitialized\<rparr>) \<and>
   croquette_clear 1 no_table = Done D_Error (no_table\<lparr>croquette_error := D_Uninitialized\<rparr>)"
  using uninitialized_access [of no_table "Some ''aaa''" 1 "Some 42"]
  by (simp add: no_table_def)

text \<open>
  C10. For every integer \<open>e\<close>, inside or outside the range of the error codes,
  \<^verbatim>\<open>croquette_set_error(e)\<close> followed by \<^verbatim>\<open>croquette_get_error()\<close> returns \<open>e\<close>: the slot
  holds the code as given, and nothing else of the state changes.
\<close>

theorem set_then_get_error:
  "croquette_get_error (croquette_set_error e g) = e \<and>
   croquette_set_error e g = g\<lparr>croquette_error := e\<rparr>"
  by (simp add: croquette_get_error_def croquette_set_error_def Let_def)

text \<open>
  C9 (the code departs from the claim). The guard of \<^verbatim>\<open>insert_at_index\<close> lets the index
  \<open>capacity\<close> through: on the two-bucket table \<open>demo\<close>, index 2 is not rejected with
  \<^verbatim>\<open>D_Invalid_Index\<close> but reaches the access to \<^verbatim>\<open>table[2]\<close>, one slot past the array.
\<close>

theorem insert_at_capacity_faults:
  "capacity demo_table = 2 \<and> length (table demo_table) = 2 \<and>
   insert_at_index 2 \<lparr>ckey = ''aaa'', cvalue = Some 21\<rparr> demo = Fault Out_Of_Bounds"
  by (simp add: insert_at_index_def demo_def demo_table_def)

text \<open>
  C1 (the code departs from the claim). A table is created without ownership
  (\<^verbatim>\<open>D_No_Free\<close>), the key \<^verbatim>\<open>"bee"\<close> is put with value 22 and put again with value 1337,
  which the comparator tells apart. With a release callback present the old value 22
  is passed to it although ownership is off; with the callback null, as the header
  asks for when ownership is off, the second put calls through the null pointer.
\<close>

theorem update_releases_without_ownership:
  "released
     (obind (croquette_create 1 D_No_Free (Some log_release) (Some compare_nat) no_table) (\<lambda>_ g.
        obind (croquette_put 1 (Some ''bee'') (Some 22) g) (\<lambda>_ g1.
          croquette_put 1 (Some ''bee'') (Some 1337) g1))) = Some [Some 22] \<and>
   faulted
     (obind (croquette_create 1 D_No_Free None (Some compare_nat) no_table) (\<lambda>_ g.
        obind (croquette_put 1 (Some ''bee'') (Some 22) g) (\<lambda>_ g1.
          croquette_put 1 (Some ''bee'') (Some 1337) g1))) = Some Null_Call"
  by code_simp

text \<open>
  C6 (the code departs from the claim). Two keys that agree on their first 255
  characters, one of 255 and one of 256 characters, are equal for \<open>is_key\<close> but select
  different buckets of a table of the default capacity 11, since \<open>hash_code\<close> runs
  over the whole key.
\<close>

theorem long_keys_select_different_buckets:
  "take MAX_KEY_SIZE (replicate 255 CHR ''b'') =
     take MAX_KEY_SIZE (replicate 255 CHR ''b'' @ ''c'') \<and>
   returned
     (obind (croquette_create 0 D_Do_Free (Some log_release) (Some compare_nat) no_table) (\<lambda>_ g.
        get_index (Some (replicate 255 CHR ''b'')) g)) = Some 8 \<and>
   returned
     (obind (croquette_create 0 D_Do_Free (Some log_release) (Some compare_nat) no_table) (\<lambda>_ g.
        get_index (Some (replicate 255 CHR ''b'' @ ''c'')) g)) = Some 9"
  by code_simp

text \<open>
  C2 (the code departs from the claim). Eight keys are put into a table created with
  capacity 1, which leaves size 8 and capacity 16. Removing one of them leaves size 7,
  which is below \<open>16 >> 1\<close>; the rehash to capacity 8 puts the seven nodes back with
  \<^verbatim>\<open>croquette_put\<close>, and the seventh put finds \<open>7 > (8 >> 1) + (8 >> 2)\<close> and doubles the
  capacity again. The capacity after the removal is 16, not 8. The instance of the
  claim does hold: from size 5 and capacity 8, two removals leave size 3 and capacity 4.
\<close>

theorem shrink_regrows:
  "size_capacity
     (obind (croquette_create 1 D_Do_Free (Some log_release) (Some compare_nat) no_table) (\<lambda>_ g.
        put_all 1 [(''aaa'', Some 21), (''bee'', Some 22), (''cee'', Some 23), (''dee'', Some 24),
                   (''eee'', Some 25), (''eff'', Some 26), (''gee'', Some 27), (''hhh'', Some 28)] g))
     = Some (8, 16) \<and>
   size_capacity
     (obind (croquette_create 1 D_Do_Free (Some log_release) (Some compare_nat) no_table) (\<lambda>_ g.
        obind (put_all 1 [(''aaa'', Some 21), (''bee'', Some 22), (''cee'', Some 23),
                          (''dee'', Some 24), (''eee'', Some 25), (''eff'', Some 26),
                          (''gee'', Some 27), (''hhh'', Some 28)] g)
          (\<lambda>_ g1. croquette_remove 2 (Some ''aaa'') g1)))
     = Some (7, 16) \<and>
   size_capacity
     (obind (croquette_create 1 D_Do_Free (Some log_release) (Some compare_nat) no_table) (\<lambda>_ g.
        obind (put_all 1 [(''aaa'', Some 21), (''bee'', Some 22), (''cee'', Some 23),
                          (''dee'', Some 24), (''eee'', Some 25)] g)
          (\<lambda>_ g1. obind (croquette_remove 2 (Some ''aaa'') g1)
             (\<lambda>_ g2. croquette_remove 2 (Some ''bee'') g2))))
     = Some (3, 4)"
  by code_simp

text \<open>
  C3 (the code departs from the claim). A table is created with capacity 1 and seven
  distinct keys are put, the first of them ten times the letter a. Every put returns
  \<^verbatim>\<open>D_Success\<close>, yet the sizes and capacities read after the puts are
  (0,2), (1,2), (2,4), (3,4), (4,8), (5,8), (6,8) and not
  (1,2), (2,4), (3,4), (4,8), (5,8), (6,8), (7,16): the first put doubles the capacity,
  the rehash puts the key again, its index on two buckets is -1, which
  \<^verbatim>\<open>croquette_put\<close> takes for \<^verbatim>\<open>D_Error\<close>, and \<^verbatim>\<open>perform_rehash\<close> does not look at what
  the put returned. The key is no longer in the table.
\<close>

theorem growth_sequence_drops_key:
  "distinct [''aaaaaaaaaa'', ''aaa'', ''bee'', ''cee'', ''dee'', ''eee'', ''eff''] \<and>
   returned
     (obind (croquette_create 1 D_Do_Free (Some log_release) (Some compare_nat) no_table) (\<lambda>_ g.
        put_results 1 [(''aaaaaaaaaa'', Some 20), (''aaa'', Some 21), (''bee'', Some 22),
                       (''cee'', Some 23), (''dee'', Some 24), (''eee'', Some 25),
                       (''eff'', Some 26)] g))
     = Some [(D_Success, 0, 2), (D_Success, 1, 2), (D_Success, 2, 4), (D_Success, 3, 4),
             (D_Success, 4, 8), (D_Success, 5, 8), (D_Success, 6, 8)] \<and>
   returned
     (obind (croquette_create 1 D_Do_Free (Some log_release) (Some compare_nat) no_table) (\<lambda>_ g.
        obind (croquette_put 1 (Some ''aaaaaaaaaa'') (Some 20) g) (\<lambda>_ g1.
          get_index (Some ''aaaaaaaaaa'') g1))) = Some (- 1) \<and>
   returned
     (obind (croquette_create 1 D_Do_Free (Some log_release) (Some compare_nat) no_table) (\<lambda>_ g.
        obind (croquette_put 1 (Some ''aaaaaaaaaa'') (Some 20) g) (\<lambda>_ g1.
          croquette_containsKey (Some ''aaaaaaaaaa'') g1))) = Some 0"
  by code_simp

text \<open>
  C4. On every table that satisfies the invariant, \<^verbatim>\<open>croquette_clear\<close> succeeds and
  leaves no entry in any chain, size 0 and the capacity equal to \<^verbatim>\<open>base_capacity\<close>,
  whatever the capacity was before; \<^verbatim>\<open>base_capacity\<close> keeps its value.
\<close>

theorem clear_resets:
  assumes "croquette g = Some t" and "table_inv t" and "allocs g = []"
  shows "\<exists>g' t'. croquette_clear (Suc n) g = Done D_Success g' \<and> croquette g' = Some t' \<and>
           concat (table t') = [] \<and> csize t' = 0 \<and> capacity t' = base_capacity t \<and>
           base_capacity t' = base_capacity t"
proof -
  from clear_ok [OF assms, of n] obtain g' t'
    where "croquette_clear (Suc n) g = Done D_Success g'" and "croquette g' = Some t'"
      and "keys_of t' = {}" and "csize t' = 0" and "capacity t' = base_capacity t"
      and "same_config t t'"
    by (auto elim!: settlesE)
  then show ?thesis
    by (intro exI [of _ g'] exI [of _ t']) (simp add: keys_of_def same_config_def)
qed

theorem clear_resets_witness:
  "croquette demo = Some demo_table \<and> table_inv demo_table \<and> allocs demo = [] \<and>
   (\<exists>g' t'. croquette_clear (Suc 0) demo = Done D_Success g' \<and> croquette g' = Some t' \<and>
      concat (table t') = [] \<and> csize t' = 0 \<and> capacity t' = 1 \<and> base_capacity t' = 1)"
proof -
  have c: "croquette demo = Some demo_table" and al: "allocs demo = []" by (simp_all add: demo_def)
  have b: "base_capacity demo_table = 1" by (simp add: demo_table_def)
  from clear_resets [OF c demo_table_inv al, of 0] show ?thesis
    unfolding b using c al demo_table_inv by simp
qed

text \<open>
  C8 (the code departs from the claim). Two calls of \<^verbatim>\<open>croquette_put\<close> on states that
  satisfy the invariants of the specification do not preserve them, since they do
  not return. On a new table of the default capacity, the key \<^verbatim>\<open>"hello world"\<close> has the
  index -8 and the lookup of the put reads \<^verbatim>\<open>table[-8]\<close>. On a table created without
  ownership and without a release callback that holds the key \<^verbatim>\<open>"bee"\<close>, a put of
  \<^verbatim>\<open>"bee"\<close> with another value calls the null callback.
\<close>

theorem put_faults_on_sound_table:
  "holds_after spec_invariants
     (croquette_create 0 D_Do_Free (Some log_release) (Some compare_nat) no_table) \<and>
   size_capacity
     (croquette_create 0 D_Do_Free (Some log_release) (Some compare_nat) no_table) = Some (0, 11) \<and>
   returned
     (obind (croquette_create 0 D_Do_Free (Some log_release) (Some compare_nat) no_table) (\<lambda>_ g.
        get_index (Some ''hello world'') g)) = Some (- 8) \<and>
   faulted
     (obind (croquette_create 0 D_Do_Free (Some log_release) (Some compare_nat) no_table) (\<lambda>_ g.
        croquette_put 1 (Some ''hello world'') (Some 1) g)) = Some Out_Of_Bounds \<and>
   holds_after spec_invariants
     (obind (croquette_create 1 D_No_Free None (Some compare_nat) no_table) (\<lambda>_ g.
        croquette_put 1 (Some ''bee'') (Some 22) g)) \<and>
   faulted
     (obind (croquette_create 1 D_No_Free None (Some compare_nat) no_table) (\<lambda>_ g.
        obind (croquette_put 1 (Some ''bee'') (Some 22) g) (\<lambda>_ g1.
          croquette_put 1 (Some ''bee'') (Some 1337) g1))) = Some Null_Call"
  by code_simp

end
